theory Spec2Isabelle
  imports Complex_Main
begin

section \<open>Data model (types/kilominx)\<close>

text \<open>
  The twelve palette entries of the string enum \<open>FaceColor\<close>. At run time a member
  is its hex string, which \<open>FaceColor_value\<close> gives.
\<close>

datatype FaceColor =
  WHITE | YELLOW | DARK_BLUE | LIGHT_BLUE | RED | PINK
  | ORANGE | LIGHT_GREEN | DARK_GREEN | PURPLE | GREY | DARK_BROWN

fun FaceColor_value :: "FaceColor \<Rightarrow> string" where
  "FaceColor_value WHITE = ''#FFFFFF''"
| "FaceColor_value YELLOW = ''#FFFF00''"
| "FaceColor_value DARK_BLUE = ''#0000FF''"
| "FaceColor_value LIGHT_BLUE = ''#87CEEB''"
| "FaceColor_value RED = ''#FF0000''"
| "FaceColor_value PINK = ''#FFC0CB''"
| "FaceColor_value ORANGE = ''#FFA500''"
| "FaceColor_value LIGHT_GREEN = ''#90EE90''"
| "FaceColor_value DARK_GREEN = ''#006400''"
| "FaceColor_value PURPLE = ''#800080''"
| "FaceColor_value GREY = ''#808080''"
| "FaceColor_value DARK_BROWN = ''#8B4513''"

text \<open>
  A coordinate is a JavaScript \<open>number\<close>, an IEEE-754 binary64 value. A vector is
  a record over the type of its coordinates, so that it can be read in two ways.

  The generators of the geometry are read in exact real arithmetic: \<open>Math.sqrt\<close>,
  \<open>Math.cos\<close>, \<open>Math.sin\<close> and \<open>Math.PI\<close> are the real \<open>sqrt\<close>,
  \<open>cos\<close>, \<open>sin\<close> and \<open>pi\<close>. What is proved of the generated geometry
  (face counts, ids, rings, vertex counts, colors, the symmetry of the neighbor relation)
  does not depend on how a coordinate is rounded.

  The contract of \<open>normalizeVector\<close> on an arbitrary vector does depend on it: it
  is settled on the binary64 reading of the function, \<open>normalizeVector_double\<close>,
  further down.

  Counters, ids and ring indices only ever hold small natural numbers and are of type
  \<open>nat\<close>.
\<close>

record 'n Vector3 =
  x :: 'n
  y :: 'n
  z :: 'n

record Face =
  face_id :: nat
  color :: FaceColor
  center :: "real Vector3"
  normal :: "real Vector3"
  vertices :: "real Vector3 list"
  neighbors :: "nat list"
  majorFace :: nat
  ring :: nat
  ringPosition :: nat

record KilominxGeometry =
  faces :: "Face list"
  radius :: real
  scale :: real

section \<open>The simple model (lib/kilominx/geometry.ts)\<close>

text \<open>The face built by one pass of the loop body, for loop counter \<open>i\<close>.\<close>

definition simpleFace :: "nat \<Rightarrow> Face" where
  "simpleFace i =
     \<lparr> face_id = i,
       color = WHITE,
       center = \<lparr> x = 0, y = 0, z = 0 \<rparr>,
       normal = \<lparr> x = 0, y = 1, z = 0 \<rparr>,
       vertices = [],
       neighbors = [],
       majorFace = i,
       ring = 0,
       ringPosition = 0 \<rparr>"

text \<open>
  \<open>for (let i = 0; i < 12; i++) { ...; faces.push(face) }\<close>, the list \<open>fs\<close>
  being the array built so far.
\<close>

function simpleLoop :: "nat \<Rightarrow> Face list \<Rightarrow> Face list" where
  "simpleLoop i fs = (if i < 12 then simpleLoop (i + 1) (fs @ [simpleFace i]) else fs)"
  by pat_completeness auto
termination
  by (relation "measure (\<lambda>(i, fs). 12 - i)") auto

definition createKilominxGeometry_simple :: KilominxGeometry where
  "createKilominxGeometry_simple =
     \<lparr> faces = simpleLoop 0 [], radius = 2.0, scale = 2.0 \<rparr>"

definition getSolvedStateColors_simple :: "FaceColor list" where
  "getSolvedStateColors_simple =
     [WHITE, YELLOW, DARK_BLUE, LIGHT_BLUE, RED, PINK,
      ORANGE, LIGHT_GREEN, DARK_GREEN, PURPLE, GREY, DARK_BROWN]"

definition getDefaultColors :: "FaceColor list" where
  "getDefaultColors = replicate 12 WHITE"

definition validateGeometry_simple :: "KilominxGeometry \<Rightarrow> bool" where
  "validateGeometry_simple geometry \<longleftrightarrow> length (faces geometry) = 12"

section \<open>The full model: vector utilities\<close>

definition PHI :: real where
  "PHI = (1 + sqrt 5) / 2"

definition PHI_INV :: real where
  "PHI_INV = 1 / PHI"

definition SCALE :: real where
  "SCALE = 2.0"

definition createVector3 :: "real \<Rightarrow> real \<Rightarrow> real \<Rightarrow> real Vector3" where
  "createVector3 a b c = \<lparr> x = a, y = b, z = c \<rparr>"

definition normalizeVector :: "real Vector3 \<Rightarrow> real Vector3" where
  "normalizeVector v =
     (let len = sqrt (x v * x v + y v * y v + z v * z v)
      in if len = 0 then \<lparr> x = 0, y = 0, z = 0 \<rparr>
         else \<lparr> x = x v / len, y = y v / len, z = z v / len \<rparr>)"

definition scaleVector :: "real Vector3 \<Rightarrow> real \<Rightarrow> real Vector3" where
  "scaleVector v s = \<lparr> x = x v * s, y = y v * s, z = z v * s \<rparr>"

definition addVectors :: "real Vector3 \<Rightarrow> real Vector3 \<Rightarrow> real Vector3" where
  "addVectors a b = \<lparr> x = x a + x b, y = y a + y b, z = z a + z b \<rparr>"

definition crossProduct :: "real Vector3 \<Rightarrow> real Vector3 \<Rightarrow> real Vector3" where
  "crossProduct a b =
     \<lparr> x = y a * z b - z a * y b,
       y = z a * x b - x a * z b,
       z = x a * y b - y a * x b \<rparr>"

section \<open>The full model: dodecahedron base geometry\<close>

definition cubeVertices :: "(real \<times> real \<times> real) list" where
  "cubeVertices =
     [(1, 1, 1), (1, 1, -1), (1, -1, 1), (1, -1, -1),
      (-1, 1, 1), (-1, 1, -1), (-1, -1, 1), (-1, -1, -1)]"

definition axisVertices :: "(real \<times> real \<times> real) list" where
  "axisVertices =
     [(0, PHI, PHI_INV), (0, PHI, - PHI_INV), (0, - PHI, PHI_INV), (0, - PHI, - PHI_INV),
      (PHI_INV, 0, PHI), (PHI_INV, 0, - PHI), (- PHI_INV, 0, PHI), (- PHI_INV, 0, - PHI),
      (PHI, PHI_INV, 0), (PHI, - PHI_INV, 0), (- PHI, PHI_INV, 0), (- PHI, - PHI_INV, 0)]"

text \<open>
  Both \<open>forEach\<close> calls push one scaled vector per triple; \<open>slice(0, 12)\<close> keeps the
  first twelve of the twenty.
\<close>

definition scaledVertex :: "real \<times> real \<times> real \<Rightarrow> real Vector3" where
  "scaledVertex t = (case t of (a, b, c) \<Rightarrow> createVector3 (a * SCALE) (b * SCALE) (c * SCALE))"

definition generateDodecahedronVertices :: "real Vector3 list" where
  "generateDodecahedronVertices =
     take 12 (([] @ map scaledVertex cubeVertices) @ map scaledVertex axisVertices)"

record MajorFace =
  mcenter :: "real Vector3"
  mnormal :: "real Vector3"

definition generateMajorFaces :: "MajorFace list" where
  "generateMajorFaces =
     map (\<lambda>c. \<lparr> mcenter = c, mnormal = normalizeVector c \<rparr>) generateDodecahedronVertices"

section \<open>The full model: pentagon generation\<close>

definition pentagonVertex :: "real Vector3 \<Rightarrow> real Vector3 \<Rightarrow> real Vector3 \<Rightarrow> real \<Rightarrow> nat \<Rightarrow> real Vector3" where
  "pentagonVertex c right forward r i =
     (let angle = (real i * 2 * pi) / 5;
          a = cos angle * r;
          b = sin angle * r
      in addVectors c (addVectors (scaleVector right a) (scaleVector forward b)))"

definition generatePentagonVertices :: "real Vector3 \<Rightarrow> real Vector3 \<Rightarrow> real \<Rightarrow> real Vector3 list" where
  "generatePentagonVertices c n r =
     (let up = (if \<bar>y n\<bar> > 0.9 then createVector3 1 0 0 else createVector3 0 1 0);
          right = normalizeVector (crossProduct up n);
          forward = normalizeVector (crossProduct n right)
      in fold (\<lambda>i vs. vs @ [pentagonVertex c right forward r i]) [0..<5] [])"

section \<open>The full model: face generation\<close>

text \<open>
  The direction of the \<open>i\<close>-th ring cell, scaled: the literal
  \<open>{x: Math.cos(angle), y: Math.sin(angle), z: 0}\<close> passed to \<open>scaleVector\<close>.
\<close>

definition ringOffset :: "nat \<Rightarrow> real \<Rightarrow> real Vector3" where
  "ringOffset i s =
     (let angle = (real i * 2 * pi) / 5
      in scaleVector \<lparr> x = cos angle, y = sin angle, z = 0 \<rparr> s)"

definition faceRadius :: real where
  "faceRadius = 0.8"

text \<open>
  Each of the three object literals reads \<open>faces.length\<close> for its id, so each takes the
  array \<open>fs\<close> as it is when the literal is evaluated.
\<close>

definition centerFace :: "MajorFace \<Rightarrow> nat \<Rightarrow> Face list \<Rightarrow> Face" where
  "centerFace mf majorIndex fs =
     \<lparr> face_id = length fs,
       color = WHITE,
       center = mcenter mf,
       normal = mnormal mf,
       vertices = generatePentagonVertices (mcenter mf) (mnormal mf) (faceRadius * 0.3),
       neighbors = [],
       majorFace = majorIndex,
       ring = 0,
       ringPosition = 0 \<rparr>"

definition innerFace :: "MajorFace \<Rightarrow> nat \<Rightarrow> nat \<Rightarrow> Face list \<Rightarrow> Face" where
  "innerFace mf majorIndex i fs =
     (let offset = ringOffset i (faceRadius * 0.6);
          faceCenter = addVectors (mcenter mf) offset
      in \<lparr> face_id = length fs,
           color = WHITE,
           center = faceCenter,
           normal = mnormal mf,
           vertices = generatePentagonVertices faceCenter (mnormal mf) (faceRadius * 0.25),
           neighbors = [],
           majorFace = majorIndex,
           ring = 1,
           ringPosition = i \<rparr>)"

definition outerFace :: "MajorFace \<Rightarrow> nat \<Rightarrow> nat \<Rightarrow> Face list \<Rightarrow> Face" where
  "outerFace mf majorIndex i fs =
     (let offset = ringOffset i faceRadius;
          faceCenter = addVectors (mcenter mf) offset
      in \<lparr> face_id = length fs,
           color = WHITE,
           center = faceCenter,
           normal = mnormal mf,
           vertices = generatePentagonVertices faceCenter (mnormal mf) (faceRadius * 0.2),
           neighbors = [],
           majorFace = majorIndex,
           ring = 2,
           ringPosition = i \<rparr>)"

text \<open>
  The callback of \<open>majorFaces.forEach((majorFace, majorIndex) => ...)\<close>: it pushes the
  center face, then runs the inner-ring loop, then, unless \<open>isCornerFace\<close>, the
  outer-ring loop.
\<close>

definition subdivide :: "MajorFace \<times> nat \<Rightarrow> Face list \<Rightarrow> Face list" where
  "subdivide p fs =
     (case p of (mf, majorIndex) \<Rightarrow>
        let isCornerFace = majorIndex < 8;
            fs1 = fs @ [centerFace mf majorIndex fs];
            fs2 = fold (\<lambda>i acc. acc @ [innerFace mf majorIndex i acc]) [0..<5] fs1
        in if \<not> isCornerFace
           then fold (\<lambda>i acc. acc @ [outerFace mf majorIndex i acc]) [0..<5] fs2
           else fs2)"

definition generateKilominxFaces :: "Face list" where
  "generateKilominxFaces =
     (let majorFaces = generateMajorFaces
      in fold subdivide (zip majorFaces [0..<length majorFaces]) [])"

section \<open>The full model: adjacency\<close>

text \<open>
  The inner \<open>forEach\<close> of \<open>calculateNeighbors\<close>: the indices \<open>otherIndex\<close> whose
  center lies closer than the threshold to the center of the face at \<open>index\<close>, the
  index itself skipped.
\<close>

definition threshold :: real where
  "threshold = 1.5"

definition neighborStep :: "Face list \<Rightarrow> nat \<Rightarrow> nat \<Rightarrow> nat list \<Rightarrow> nat list" where
  "neighborStep fs index otherIndex ns =
     (if index = otherIndex then ns
      else
        let face = fs ! index;
            otherFace = fs ! otherIndex;
            dx = x (center face) - x (center otherFace);
            dy = y (center face) - y (center otherFace);
            dz = z (center face) - z (center otherFace);
            distance = sqrt (dx * dx + dy * dy + dz * dz)
        in if distance < threshold then ns @ [otherIndex] else ns)"

definition neighborsOf :: "Face list \<Rightarrow> nat \<Rightarrow> nat list" where
  "neighborsOf fs index = fold (neighborStep fs index) [0..<length fs] []"

text \<open>
  The outer \<open>forEach\<close> assigns \<open>face.neighbors\<close> in place, one face after the other;
  later passes read the array as the earlier ones left it. The spread copy
  \<open>[...faces]\<close> holds the same face objects, so the state is the one list \<open>fs\<close>.
\<close>

definition assignNeighbors :: "nat \<Rightarrow> Face list \<Rightarrow> Face list" where
  "assignNeighbors index fs = fs[index := (fs ! index)\<lparr> neighbors := neighborsOf fs index \<rparr>]"

definition calculateNeighbors :: "Face list \<Rightarrow> Face list" where
  "calculateNeighbors fs = fold assignNeighbors [0..<length fs] fs"

section \<open>The full model: geometry, colors, validation\<close>

definition createKilominxGeometry :: KilominxGeometry where
  "createKilominxGeometry =
     (let fs = generateKilominxFaces;
          facesWithNeighbors = calculateNeighbors fs
      in \<lparr> faces = facesWithNeighbors, radius = SCALE, scale = SCALE \<rparr>)"

definition colorMap :: "FaceColor list" where
  "colorMap =
     [WHITE, YELLOW, DARK_BLUE, LIGHT_BLUE, RED, PINK,
      ORANGE, LIGHT_GREEN, DARK_GREEN, PURPLE, GREY, DARK_BROWN]"

text \<open>
  One color is pushed per face of the geometry. The index
  \<open>face.majorFace % colorMap.length\<close> is always below the length of \<open>colorMap\<close>, so the
  read never leaves the array.
\<close>

definition getSolvedStateColors :: "FaceColor list" where
  "getSolvedStateColors =
     (let geometry = createKilominxGeometry
      in fold (\<lambda>face colors. colors @ [colorMap ! (majorFace face mod length colorMap)])
           (faces geometry) [])"

text \<open>
  The test \<open>!face.center || !face.normal || !face.vertices\<close> is never true of a
  \<open>Face\<close>: objects and arrays are truthy, and the record type has all three fields.
  What remains is the length check on each vertex list, in array order.
\<close>

fun validFaces :: "Face list \<Rightarrow> bool" where
  "validFaces [] = True"
| "validFaces (face # rest) = (if length (vertices face) \<noteq> 5 then False else validFaces rest)"

definition validateGeometry :: "KilominxGeometry \<Rightarrow> bool" where
  "validateGeometry geometry =
     (if length (faces geometry) \<noteq> 62 then False else validFaces (faces geometry))"

section \<open>binary64 arithmetic and \<open>normalizeVector\<close> on doubles\<close>

text \<open>
  A double is a finite number, given by its sign (\<open>True\<close> for negative) and its
  magnitude, an infinity with its sign, or NaN. Both zeros are there: \<open>Num False 0\<close>
  and \<open>Num True 0\<close>.
\<close>

datatype double = Num bool real | Inf bool | NaN

text \<open>
  Rounding to nearest, ties to even. The doubles around a magnitude \<open>m > 0\<close> are the
  multiples of \<open>quantum m\<close>: 53 significant bits, and the fixed spacing
  \<open>2 powr (- 1074)\<close> below the smallest normal number \<open>2 powr (- 1022)\<close>. A rounded
  magnitude of \<open>2 powr 1024\<close> or more overflows to infinity.
\<close>

definition roundEven :: "real \<Rightarrow> int" where
  "roundEven t =
     (let f = \<lfloor>t\<rfloor>
      in if t - of_int f < 1/2 then f
         else if t - of_int f > 1/2 then f + 1
         else if even f then f else f + 1)"

definition quantum :: "real \<Rightarrow> real" where
  "quantum m = 2 powr (of_int (max \<lfloor>log 2 m\<rfloor> (- 1022)) - 52)"

definition roundMag :: "real \<Rightarrow> real" where
  "roundMag m = (if m = 0 then 0 else of_int (roundEven (m / quantum m)) * quantum m)"

definition round64 :: "bool \<Rightarrow> real \<Rightarrow> double" where
  "round64 s m = (let r = roundMag m in if r \<ge> 2 powr 1024 then Inf s else Num s r)"

text \<open>
  The operations \<open>*\<close>, \<open>/\<close> and \<open>+\<close>, each the exact result correctly
  rounded, with the special cases of IEEE 754; \<open>Math.sqrt\<close>, taken as the correctly
  rounded square root of IEEE 754; and the test \<open>=== 0\<close>, which holds of both zeros.
\<close>

fun dmul :: "double \<Rightarrow> double \<Rightarrow> double" where
  "dmul (Num s m) (Num t n) = round64 (s \<noteq> t) (m * n)"
| "dmul (Num s m) (Inf t) = (if m = 0 then NaN else Inf (s \<noteq> t))"
| "dmul (Inf s) (Num t n) = (if n = 0 then NaN else Inf (s \<noteq> t))"
| "dmul (Inf s) (Inf t) = Inf (s \<noteq> t)"
| "dmul NaN _ = NaN"
| "dmul _ NaN = NaN"

fun ddiv :: "double \<Rightarrow> double \<Rightarrow> double" where
  "ddiv (Num s m) (Num t n) =
     (if n = 0 then (if m = 0 then NaN else Inf (s \<noteq> t)) else round64 (s \<noteq> t) (m / n))"
| "ddiv (Num s m) (Inf t) = Num (s \<noteq> t) 0"
| "ddiv (Inf s) (Num t n) = Inf (s \<noteq> t)"
| "ddiv (Inf s) (Inf t) = NaN"
| "ddiv NaN _ = NaN"
| "ddiv _ NaN = NaN"

definition signed :: "bool \<Rightarrow> real \<Rightarrow> real" where
  "signed s m = (if s then - m else m)"

fun dadd :: "double \<Rightarrow> double \<Rightarrow> double" where
  "dadd (Num s m) (Num t n) =
     (let r = signed s m + signed t n
      in if r = 0 then Num (s \<and> t) 0 else round64 (r < 0) \<bar>r\<bar>)"
| "dadd (Num s m) (Inf t) = Inf t"
| "dadd (Inf s) (Num t n) = Inf s"
| "dadd (Inf s) (Inf t) = (if s = t then Inf s else NaN)"
| "dadd NaN _ = NaN"
| "dadd _ NaN = NaN"

fun dsqrt :: "double \<Rightarrow> double" where
  "dsqrt (Num s m) = (if m = 0 then Num s 0 else if s then NaN else round64 False (sqrt m))"
| "dsqrt (Inf s) = (if s then NaN else Inf False)"
| "dsqrt NaN = NaN"

fun isZero :: "double \<Rightarrow> bool" where
  "isZero (Num s m) = (m = 0)"
| "isZero _ = False"

text \<open>
  \<open>normalizeVector\<close> again, every operation now the binary64 one. The sum of the
  squares associates to the left, as JavaScript evaluates it.
\<close>

definition normalizeVector_double :: "double Vector3 \<Rightarrow> double Vector3" where
  "normalizeVector_double v =
     (let len = dsqrt (dadd (dadd (dmul (x v) (x v)) (dmul (y v) (y v))) (dmul (z v) (z v)))
      in if isZero len then \<lparr> x = Num False 0, y = Num False 0, z = Num False 0 \<rparr>
         else \<lparr> x = ddiv (x v) len, y = ddiv (y v) len, z = ddiv (z v) len \<rparr>)"

text \<open>
  The distance of two centers as \<open>calculateNeighbors\<close> computes it, on doubles;
  \<open>a - b\<close> is \<open>a + (- b)\<close>, and negation flips the sign.
\<close>

fun dneg :: "double \<Rightarrow> double" where
  "dneg (Num s m) = Num (\<not> s) m"
| "dneg (Inf s) = Inf (\<not> s)"
| "dneg NaN = NaN"

definition dsub :: "double \<Rightarrow> double \<Rightarrow> double" where
  "dsub a b = dadd a (dneg b)"

definition centerDistance_double :: "double Vector3 \<Rightarrow> double Vector3 \<Rightarrow> double" where
  "centerDistance_double a b =
     (let dx = dsub (x a) (x b);
          dy = dsub (y a) (y b);
          dz = dsub (z a) (z b)
      in dsqrt (dadd (dadd (dmul dx dx) (dmul dy dy)) (dmul dz dz)))"

section \<open>Notions used to state the properties\<close>

text \<open>
  The placement of a cell within the puzzle, \<open>(majorFace, ring, ringPosition)\<close>, and
  the emission order of the cells of major face \<open>m\<close>: the center cell, the five
  inner-ring cells by position, and for the major faces from index 8 on the five
  outer-ring cells by position.
\<close>

definition cellTag :: "Face \<Rightarrow> nat \<times> nat \<times> nat" where
  "cellTag f = (majorFace f, ring f, ringPosition f)"

definition cellsOf :: "nat \<Rightarrow> (nat \<times> nat \<times> nat) list" where
  "cellsOf m =
     (m, 0, 0) # map (\<lambda>i. (m, 1, i)) [0..<5]
       @ (if m < 8 then [] else map (\<lambda>i. (m, 2, i)) [0..<5])"

definition cellCount :: "nat \<Rightarrow> nat" where
  "cellCount m = (if m < 8 then 6 else 11)"

text \<open>
  The centers of the cells of a major face with anchor \<open>c\<close> and index \<open>m\<close>, in
  emission order: the anchor itself, then the anchor moved by the inner offsets at the
  angles \<open>72\<degree> \<sdot> i\<close>, then (from index 8 on) by the outer offsets.
\<close>

definition cellCenters :: "real Vector3 \<Rightarrow> nat \<Rightarrow> real Vector3 list" where
  "cellCenters c m =
     c # map (\<lambda>i. addVectors c (ringOffset i (faceRadius * 0.6))) [0..<5]
       @ (if m < 8 then [] else map (\<lambda>i. addVectors c (ringOffset i faceRadius)) [0..<5])"

text \<open>The distance that \<open>calculateNeighbors\<close> computes between two centers.\<close>

definition centerDistance :: "real Vector3 \<Rightarrow> real Vector3 \<Rightarrow> real" where
  "centerDistance a b =
     sqrt ((x a - x b) * (x a - x b) + (y a - y b) * (y a - y b) + (z a - z b) * (z a - z b))"

text \<open>
  For the pentagon in exact arithmetic: the inner product, the vector from a center to a
  point, and two unit vectors orthogonal to each other and to \<open>n\<close>.
\<close>

definition dotProduct :: "real Vector3 \<Rightarrow> real Vector3 \<Rightarrow> real" where
  "dotProduct a b = x a * x b + y a * y b + z a * z b"

definition fromTo :: "real Vector3 \<Rightarrow> real Vector3 \<Rightarrow> real Vector3" where
  "fromTo c v = \<lparr> x = x v - x c, y = y v - y c, z = z v - z c \<rparr>"

definition orthonormalFrame :: "real Vector3 \<Rightarrow> real Vector3 \<Rightarrow> real Vector3 \<Rightarrow> bool" where
  "orthonormalFrame n e1 e2 \<longleftrightarrow>
     dotProduct e1 e1 = 1 \<and> dotProduct e2 e2 = 1 \<and> dotProduct e1 e2 = 0
     \<and> dotProduct e1 n = 0 \<and> dotProduct e2 n = 0"

text \<open>
  The value of a finite double, the exact length of a vector of finite doubles, and what
  it is for a vector to have unit length within the tolerance \<open>1e-9\<close>. A finite
  number is a double that is neither an infinity nor NaN and whose magnitude is not
  negative; \<open>magnitude\<close> is the magnitude of a finite double, and \<open>largest\<close> the
  largest magnitude among the three coordinates of a vector. A finite double is well
  formed when its magnitude is not negative, is below \<open>2 powr 1024\<close> and is left
  unchanged by rounding.
\<close>

fun dvalue :: "double \<Rightarrow> real" where
  "dvalue (Num s m) = signed s m"
| "dvalue _ = 0"

fun isFinite :: "double \<Rightarrow> bool" where
  "isFinite (Num s m) = True"
| "isFinite _ = False"

definition vectorLength :: "double Vector3 \<Rightarrow> real" where
  "vectorLength v =
     sqrt (dvalue (x v) * dvalue (x v) + dvalue (y v) * dvalue (y v) + dvalue (z v) * dvalue (z v))"

definition unitLength :: "double Vector3 \<Rightarrow> bool" where
  "unitLength v \<longleftrightarrow>
     isFinite (x v) \<and> isFinite (y v) \<and> isFinite (z v) \<and> \<bar>vectorLength v - 1\<bar> \<le> 1 / 10 ^ 9"

fun finiteNumber :: "double \<Rightarrow> bool" where
  "finiteNumber (Num s m) = (0 \<le> m)"
| "finiteNumber _ = False"

fun magnitude :: "double \<Rightarrow> real" where
  "magnitude (Num s m) = m"
| "magnitude _ = 0"

definition largest :: "double Vector3 \<Rightarrow> real" where
  "largest v = max (magnitude (x v)) (max (magnitude (y v)) (magnitude (z v)))"

fun isDouble :: "double \<Rightarrow> bool" where
  "isDouble (Num s m) = (0 \<le> m \<and> m < 2 powr 1024 \<and> roundMag m = m)"
| "isDouble _ = True"

text \<open>
  For the error analysis: the unit roundoff, which bounds the relative error of a
  rounding in the normal range; \<open>eta\<close>, half the spacing of the subnormal doubles,
  which bounds the absolute error of a rounding below the normal range; and powers of
  two that the simplifier leaves alone.
\<close>

definition roundoff :: real where
  "roundoff = 2 powr (- 53)"

definition eta :: real where
  "eta = 2 powr (- 1075)"

definition pow2 :: "real \<Rightarrow> real" where
  "pow2 e = 2 powr e"

section \<open>The simple model: the loop\<close>

lemma simpleLoop_eq: "i \<le> 12 \<Longrightarrow> simpleLoop i fs = fs @ map simpleFace [i..<12]"
proof (induction i fs rule: simpleLoop.induct)
  case (1 i fs)
  show ?case
  proof (cases "i < 12")
    case True
    then have "simpleLoop i fs = simpleLoop (i + 1) (fs @ [simpleFace i])" by simp
    also have "\<dots> = (fs @ [simpleFace i]) @ map simpleFace [i + 1..<12]"
      using 1 True by simp
    also have "\<dots> = fs @ map simpleFace [i..<12]"
      using True by (simp add: upt_conv_Cons)
    finally show ?thesis .
  next
    case False
    with 1 show ?thesis by simp
  qed
qed

lemma faces_simple: "faces createKilominxGeometry_simple = map simpleFace [0..<12]"
  by (simp add: createKilominxGeometry_simple_def simpleLoop_eq del: simpleLoop.simps)

lemma length_fold_push:
  "length (fold (\<lambda>i acc. acc @ [g i acc]) js fs) = length fs + length js"
  by (induction js arbitrary: fs) simp_all

lemma map_fold_push:
  assumes "\<And>i acc. F (g i acc) = h i"
  shows "map F (fold (\<lambda>i acc. acc @ [g i acc]) js fs) = map F fs @ map h js"
  using assms by (induction js arbitrary: fs) simp_all

lemma ids_fold_push:
  assumes g: "\<And>i acc. face_id (g i acc) = length acc"
  shows "map face_id (fold (\<lambda>i acc. acc @ [g i acc]) js fs)
         = map face_id fs @ [length fs..<length fs + length js]"
proof (induction js arbitrary: fs)
  case Nil
  show ?case by simp
next
  case (Cons j js)
  have "length fs < length fs + length (j # js)" by simp
  then have "[length fs..<length fs + length (j # js)]
        = length fs # [Suc (length fs)..<length fs + length (j # js)]"
    by (rule upt_conv_Cons)
  moreover have "length fs + length (j # js) = Suc (length fs) + length js" by simp
  ultimately have "[length fs..<length fs + length (j # js)]
        = length fs # [Suc (length fs)..<Suc (length fs) + length js]"
    by (simp only:)
  then show ?case
    using Cons [of "fs @ [g j fs]"] g [of j fs] by simp
qed

section \<open>One major face\<close>

lemma length_generatePentagonVertices: "length (generatePentagonVertices c n r) = 5"
  by (simp add: generatePentagonVertices_def Let_def length_fold_push)

lemma length_subdivide: "length (subdivide (mf, m) fs) = length fs + cellCount m"
  by (simp add: subdivide_def cellCount_def Let_def length_fold_push)

lemma ids_subdivide:
  "map face_id (subdivide (mf, m) fs) = map face_id fs @ [length fs..<length fs + cellCount m]"
proof -
  have inner: "map face_id (fold (\<lambda>i acc. acc @ [innerFace mf m i acc]) js gs)
               = map face_id gs @ [length gs..<length gs + length js]" for js gs
    by (rule ids_fold_push) (simp add: innerFace_def Let_def)
  have outer: "map face_id (fold (\<lambda>i acc. acc @ [outerFace mf m i acc]) js gs)
               = map face_id gs @ [length gs..<length gs + length js]" for js gs
    by (rule ids_fold_push) (simp add: outerFace_def Let_def)
  have c: "face_id (centerFace mf m fs) = length fs"
    by (simp add: centerFace_def)
  have split6: "[length fs..<length fs + 6] = length fs # [Suc (length fs)..<Suc (length fs) + 5]"
    by (simp add: upt_conv_Cons)
  have split11: "[length fs..<length fs + 11]
      = length fs # [Suc (length fs)..<Suc (length fs) + 5] @ [Suc (length fs) + 5..<Suc (length fs) + 5 + 5]"
    by (simp add: upt_conv_Cons flip: upt_add_eq_append)
  show ?thesis
  proof (cases "m < 8")
    case True
    then show ?thesis
      using split6 unfolding subdivide_def Let_def cellCount_def
      by (simp add: inner c del: upt.simps)
  next
    case False
    then show ?thesis
      using split11 unfolding subdivide_def Let_def cellCount_def
      by (simp add: inner outer c length_fold_push del: upt.simps)
  qed
qed

lemma tags_subdivide:
  "map cellTag (subdivide (mf, m) fs) = map cellTag fs @ cellsOf m"
proof -
  have inner: "map cellTag (fold (\<lambda>i acc. acc @ [innerFace mf m i acc]) js gs)
               = map cellTag gs @ map (\<lambda>i. (m, 1, i)) js" for js gs
    by (rule map_fold_push) (simp add: innerFace_def Let_def cellTag_def)
  have outer: "map cellTag (fold (\<lambda>i acc. acc @ [outerFace mf m i acc]) js gs)
               = map cellTag gs @ map (\<lambda>i. (m, 2, i)) js" for js gs
    by (rule map_fold_push) (simp add: outerFace_def Let_def cellTag_def)
  have c: "cellTag (centerFace mf m fs) = (m, 0, 0)"
    by (simp add: centerFace_def cellTag_def)
  show ?thesis
    unfolding subdivide_def Let_def cellsOf_def
    by (simp add: inner outer c del: upt.simps)
qed

section \<open>All major faces\<close>

lemma length_fold_subdivide:
  "length (fold subdivide ps fs) = length fs + sum_list (map (\<lambda>p. cellCount (snd p)) ps)"
proof (induction ps arbitrary: fs)
  case Nil
  show ?case by simp
next
  case (Cons p ps)
  obtain mf m where p: "p = (mf, m)" by (cases p)
  show ?case by (simp add: Cons p length_subdivide)
qed

lemma ids_fold_subdivide:
  "map face_id (fold subdivide ps fs)
   = map face_id fs @ [length fs..<length (fold subdivide ps fs)]"
proof (induction ps arbitrary: fs)
  case Nil
  show ?case by simp
next
  case (Cons p ps)
  obtain mf m where p: "p = (mf, m)" by (cases p)
  let ?gs = "subdivide (mf, m) fs"
  have le: "length ?gs \<le> length (fold subdivide ps ?gs)"
    by (simp add: length_fold_subdivide)
  have "map face_id (fold subdivide (p # ps) fs)
        = map face_id ?gs @ [length ?gs..<length (fold subdivide ps ?gs)]"
    using Cons [of ?gs] by (simp add: p)
  also have "\<dots> = map face_id fs @ [length fs..<length fs + cellCount m]
                      @ [length fs + cellCount m..<length (fold subdivide ps ?gs)]"
    by (simp add: ids_subdivide length_subdivide)
  also have "[length fs..<length fs + cellCount m]
               @ [length fs + cellCount m..<length (fold subdivide ps ?gs)]
             = [length fs..<length (fold subdivide ps ?gs)]"
  proof -
    obtain k where k: "length (fold subdivide ps ?gs) = (length fs + cellCount m) + k"
      using le by (metis le_Suc_ex length_subdivide)
    show ?thesis
      unfolding k by (rule upt_add_eq_append [symmetric]) simp
  qed
  finally show ?case by (simp add: p)
qed

lemma tags_fold_subdivide:
  "map cellTag (fold subdivide ps fs)
   = map cellTag fs @ concat (map (\<lambda>p. cellsOf (snd p)) ps)"
proof (induction ps arbitrary: fs)
  case Nil
  show ?case by simp
next
  case (Cons p ps)
  obtain mf m where p: "p = (mf, m)" by (cases p)
  show ?case by (simp add: Cons p tags_subdivide)
qed

lemma length_generateMajorFaces: "length generateMajorFaces = 12"
  by (simp add: generateMajorFaces_def generateDodecahedronVertices_def
        cubeVertices_def axisVertices_def)

lemma map_snd_majorFaces:
  "map snd (zip generateMajorFaces [0..<length generateMajorFaces]) = [0..<12]"
  by (simp only: length_generateMajorFaces) (simp add: length_generateMajorFaces del: upt.simps)

lemma twelve: "[0..<12] = [0,1,2,3,4,5,6,7,8,9,10,11::nat]"
  by (simp add: upt_conv_Cons)

lemma length_generateKilominxFaces: "length generateKilominxFaces = 92"
proof -
  have "map (\<lambda>p. cellCount (snd p)) (zip generateMajorFaces [0..<length generateMajorFaces])
        = map cellCount (map snd (zip generateMajorFaces [0..<length generateMajorFaces]))"
    by (simp only: map_map comp_def)
  also have "\<dots> = map cellCount [0,1,2,3,4,5,6,7,8,9,10,11]"
    by (simp only: map_snd_majorFaces twelve)
  finally show ?thesis
    by (simp add: generateKilominxFaces_def Let_def length_fold_subdivide cellCount_def)
qed

lemma ids_generateKilominxFaces: "map face_id generateKilominxFaces = [0..<92]"
  using ids_fold_subdivide [of "zip generateMajorFaces [0..<length generateMajorFaces]" "[]"]
    length_generateKilominxFaces
  by (simp add: generateKilominxFaces_def Let_def del: upt.simps)

lemma tags_generateKilominxFaces:
  "map cellTag generateKilominxFaces = concat (map cellsOf [0..<12])"
proof -
  have "map (\<lambda>p. cellsOf (snd p)) (zip generateMajorFaces [0..<length generateMajorFaces])
        = map cellsOf (map snd (zip generateMajorFaces [0..<length generateMajorFaces]))"
    by (simp only: map_map comp_def)
  also have "\<dots> = map cellsOf [0..<12]"
    by (simp only: map_snd_majorFaces)
  finally show ?thesis
    by (simp add: generateKilominxFaces_def Let_def tags_fold_subdivide del: upt.simps)
qed

section \<open>Adjacency\<close>

lemma centerDistance_commute: "centerDistance a b = centerDistance b a"
proof -
  have "(u - v) * (u - v) = (v - u) * (v - u)" for u v :: real
    by (simp add: algebra_simps)
  then show ?thesis
    unfolding centerDistance_def by presburger
qed

lemma fold_neighborStep:
  "fold (neighborStep fs i) js ns
   = ns @ filter (\<lambda>j. i \<noteq> j \<and> centerDistance (center (fs ! i)) (center (fs ! j)) < threshold) js"
  by (induction js arbitrary: ns) (simp_all add: neighborStep_def centerDistance_def Let_def)

lemma neighborsOf_eq:
  "neighborsOf fs i
   = filter (\<lambda>j. i \<noteq> j \<and> centerDistance (center (fs ! i)) (center (fs ! j)) < threshold)
       [0..<length fs]"
  by (simp add: neighborsOf_def fold_neighborStep)

lemma neighborsOf_cong:
  assumes "map center fs = map center gs" and "i < length fs"
  shows "neighborsOf fs i = neighborsOf gs i"
proof -
  have len: "length fs = length gs"
    using assms(1) by (rule map_eq_imp_length_eq)
  have nth: "center (fs ! j) = center (gs ! j)" if "j < length fs" for j
    using assms(1) that len by (metis nth_map)
  show ?thesis
    unfolding neighborsOf_eq len [symmetric]
    by (rule filter_cong) (use nth assms(2) in auto)
qed

lemma length_assignNeighbors: "length (assignNeighbors i fs) = length fs"
  by (simp add: assignNeighbors_def)

lemma map_assignNeighbors:
  assumes "\<And>f ns. F (f\<lparr>neighbors := ns\<rparr>) = F f"
  shows "map F (assignNeighbors i fs) = map F fs"
proof (cases "i < length fs")
  case True
  then show ?thesis
    by (simp add: assignNeighbors_def map_update assms list_update_same_conv)
next
  case False
  then show ?thesis by (simp add: assignNeighbors_def list_update_beyond)
qed

lemma length_fold_assignNeighbors: "length (fold assignNeighbors js fs) = length fs"
  by (induction js arbitrary: fs) (simp_all add: length_assignNeighbors)

lemma map_fold_assignNeighbors:
  assumes "\<And>f ns. F (f\<lparr>neighbors := ns\<rparr>) = F f"
  shows "map F (fold assignNeighbors js fs) = map F fs"
  by (induction js arbitrary: fs) (simp_all add: map_assignNeighbors [of F, OF assms])

lemma neighbors_fold_assignNeighbors:
  assumes "i < length fs"
  shows "neighbors (fold assignNeighbors js fs ! i)
         = (if i \<in> set js then neighborsOf fs i else neighbors (fs ! i))"
  using assms
proof (induction js arbitrary: fs)
  case Nil
  show ?case by simp
next
  case (Cons j js)
  let ?gs = "assignNeighbors j fs"
  have len: "i < length ?gs"
    using Cons.prems by (simp add: length_assignNeighbors)
  have centers: "map center ?gs = map center fs"
    by (rule map_assignNeighbors) simp
  have same: "neighborsOf ?gs i = neighborsOf fs i"
    using centers len by (rule neighborsOf_cong)
  have here: "neighbors (?gs ! i) = (if i = j then neighborsOf fs j else neighbors (fs ! i))"
    using Cons.prems by (simp add: assignNeighbors_def nth_list_update)
  show ?case
    using Cons.IH [OF len] same here by auto
qed

lemma length_calculateNeighbors: "length (calculateNeighbors fs) = length fs"
  by (simp add: calculateNeighbors_def length_fold_assignNeighbors)

lemma map_calculateNeighbors:
  assumes "\<And>f ns. F (f\<lparr>neighbors := ns\<rparr>) = F f"
  shows "map F (calculateNeighbors fs) = map F fs"
  unfolding calculateNeighbors_def by (rule map_fold_assignNeighbors) (rule assms)

lemma neighbors_calculateNeighbors:
  "i < length fs \<Longrightarrow> neighbors (calculateNeighbors fs ! i) = neighborsOf fs i"
  by (simp add: calculateNeighbors_def neighbors_fold_assignNeighbors)

lemma mem_neighborsOf:
  "j \<in> set (neighborsOf fs i)
   \<longleftrightarrow> j < length fs \<and> i \<noteq> j \<and> centerDistance (center (fs ! i)) (center (fs ! j)) < threshold"
  by (auto simp add: neighborsOf_eq)

section \<open>The geometries\<close>

lemma faces_full: "faces createKilominxGeometry = calculateNeighbors generateKilominxFaces"
  by (simp add: createKilominxGeometry_def Let_def)

lemma length_faces_full: "length (faces createKilominxGeometry) = 92"
  by (simp add: faces_full length_calculateNeighbors length_generateKilominxFaces)

lemma length_faces_simple: "length (faces createKilominxGeometry_simple) = 12"
  by (simp add: faces_simple)

section \<open>Centers and vertices of the generated faces\<close>

lemma centers_subdivide:
  "map center (subdivide (mf, m) fs) = map center fs @ cellCenters (mcenter mf) m"
proof -
  have inner: "map center (fold (\<lambda>i acc. acc @ [innerFace mf m i acc]) js gs)
               = map center gs @ map (\<lambda>i. addVectors (mcenter mf) (ringOffset i (faceRadius * 0.6))) js" for js gs
    by (rule map_fold_push) (simp add: innerFace_def Let_def)
  have outer: "map center (fold (\<lambda>i acc. acc @ [outerFace mf m i acc]) js gs)
               = map center gs @ map (\<lambda>i. addVectors (mcenter mf) (ringOffset i faceRadius)) js" for js gs
    by (rule map_fold_push) (simp add: outerFace_def Let_def)
  have c: "center (centerFace mf m fs) = mcenter mf"
    by (simp add: centerFace_def)
  show ?thesis
    unfolding subdivide_def Let_def cellCenters_def
    by (simp add: inner outer c del: upt.simps)
qed

lemma centers_fold_subdivide:
  "map center (fold subdivide ps fs)
   = map center fs @ concat (map (\<lambda>p. cellCenters (mcenter (fst p)) (snd p)) ps)"
proof (induction ps arbitrary: fs)
  case Nil
  show ?case by simp
next
  case (Cons p ps)
  obtain mf m where p: "p = (mf, m)" by (cases p)
  show ?case by (simp add: Cons p centers_subdivide)
qed

lemma centers_generateKilominxFaces:
  "map center generateKilominxFaces
   = concat (map (\<lambda>m. cellCenters (generateDodecahedronVertices ! m) m) [0..<12])"
proof -
  let ?ps = "zip generateMajorFaces [0..<length generateMajorFaces]"
  have "map (\<lambda>p. cellCenters (mcenter (fst p)) (snd p)) ?ps
        = map (\<lambda>m. cellCenters (mcenter (generateMajorFaces ! m)) m) [0..<length generateMajorFaces]"
    by (rule nth_equalityI) simp_all
  also have "\<dots> = map (\<lambda>m. cellCenters (generateDodecahedronVertices ! m) m) [0..<length generateMajorFaces]"
    by (rule map_cong) (simp_all add: generateMajorFaces_def)
  finally show ?thesis
    by (simp add: generateKilominxFaces_def Let_def centers_fold_subdivide
          length_generateMajorFaces del: upt.simps)
qed

lemma vertices_subdivide:
  assumes "\<forall>f \<in> set fs. length (vertices f) = 5"
  shows "\<forall>f \<in> set (subdivide (mf, m) fs). length (vertices f) = 5"
proof -
  have "map (\<lambda>f. length (vertices f)) (subdivide (mf, m) fs)
        = map (\<lambda>f. length (vertices f)) fs @ replicate (cellCount m) 5"
  proof -
    have inner: "map (\<lambda>f. length (vertices f)) (fold (\<lambda>i acc. acc @ [innerFace mf m i acc]) js gs)
               = map (\<lambda>f. length (vertices f)) gs @ map (\<lambda>i. 5) js" for js gs
      by (rule map_fold_push) (simp add: innerFace_def Let_def length_generatePentagonVertices)
    have outer: "map (\<lambda>f. length (vertices f)) (fold (\<lambda>i acc. acc @ [outerFace mf m i acc]) js gs)
               = map (\<lambda>f. length (vertices f)) gs @ map (\<lambda>i. 5) js" for js gs
      by (rule map_fold_push) (simp add: outerFace_def Let_def length_generatePentagonVertices)
    have c: "length (vertices (centerFace mf m fs)) = 5"
      by (simp add: centerFace_def length_generatePentagonVertices)
    show ?thesis
      unfolding subdivide_def Let_def cellCount_def
      by (simp add: inner outer c map_replicate_const del: upt.simps replicate.simps flip: replicate_add replicate_Suc)
  qed
  then have "set (map (\<lambda>f. length (vertices f)) (subdivide (mf, m) fs)) \<subseteq> {5}"
    using assms by auto
  then show ?thesis by auto
qed

lemma vertices_fold_subdivide:
  assumes "\<forall>f \<in> set fs. length (vertices f) = 5"
  shows "\<forall>f \<in> set (fold subdivide ps fs). length (vertices f) = 5"
  using assms
proof (induction ps arbitrary: fs)
  case Nil
  then show ?case by simp
next
  case (Cons p ps)
  obtain mf m where p: "p = (mf, m)" by (cases p)
  show ?case
    using Cons.IH [OF vertices_subdivide [OF Cons.prems, of mf m]] by (simp add: p)
qed

lemma vertices_generateKilominxFaces:
  "\<forall>f \<in> set generateKilominxFaces. length (vertices f) = 5"
  unfolding generateKilominxFaces_def Let_def by (rule vertices_fold_subdivide) simp

section \<open>Ids, cells and centers of the full geometry\<close>

lemma ids_faces_full: "map face_id (faces createKilominxGeometry) = [0..<92]"
proof -
  have "map face_id (calculateNeighbors generateKilominxFaces) = map face_id generateKilominxFaces"
    by (rule map_calculateNeighbors) simp
  then show ?thesis by (simp only: faces_full ids_generateKilominxFaces)
qed

lemma tags_faces_full: "map cellTag (faces createKilominxGeometry) = concat (map cellsOf [0..<12])"
proof -
  have "map cellTag (calculateNeighbors generateKilominxFaces) = map cellTag generateKilominxFaces"
    by (rule map_calculateNeighbors) (simp add: cellTag_def)
  then show ?thesis by (simp only: faces_full tags_generateKilominxFaces)
qed

lemma centers_faces_full:
  "map center (faces createKilominxGeometry)
   = concat (map (\<lambda>m. cellCenters (generateDodecahedronVertices ! m) m) [0..<12])"
proof -
  have "map center (calculateNeighbors generateKilominxFaces) = map center generateKilominxFaces"
    by (rule map_calculateNeighbors) simp
  then show ?thesis by (simp only: faces_full centers_generateKilominxFaces)
qed

lemma vertices_faces_full:
  assumes "f \<in> set (faces createKilominxGeometry)"
  shows "length (vertices f) = 5"
proof -
  have "map vertices (calculateNeighbors generateKilominxFaces) = map vertices generateKilominxFaces"
    by (rule map_calculateNeighbors) simp
  then have "set (map vertices (faces createKilominxGeometry)) = set (map vertices generateKilominxFaces)"
    by (simp only: faces_full)
  moreover have "vertices f \<in> set (map vertices (faces createKilominxGeometry))"
    using assms by simp
  ultimately obtain h where "h \<in> set generateKilominxFaces" "vertices f = vertices h"
    by auto
  then show ?thesis using vertices_generateKilominxFaces by simp
qed

section \<open>Counting the cells of a ring\<close>

lemma count_cellsOf:
  "length (filter (\<lambda>t. fst t = m \<and> fst (snd t) = r) (cellsOf k))
   = (if k = m then (if r = 0 then 1 else if r = 1 then 5 else if r = 2 \<and> 8 \<le> m then 5 else 0) else 0)"
  by (simp add: cellsOf_def upt_conv_Cons)

lemma count_cells:
  "length (filter (\<lambda>t. fst t = m \<and> fst (snd t) = r) (concat (map cellsOf ks)))
   = sum_list (map (\<lambda>k. if k = m then (if r = 0 then 1 else if r = 1 then 5 else if r = 2 \<and> 8 \<le> m then 5 else 0) else 0) ks)"
  by (induction ks) (simp_all add: count_cellsOf del: upt.simps)

lemma sum_list_single:
  "sum_list (map (\<lambda>k. if k = m then c else 0) [0..<n]) = (if m < n then c else (0::nat))"
  by (induction n) auto

lemma count_faces_full:
  assumes "m < 12"
  shows "length (filter (\<lambda>f. majorFace f = m \<and> ring f = r) (faces createKilominxGeometry))
         = (if r = 0 then 1 else if r = 1 then 5 else if r = 2 \<and> 8 \<le> m then 5 else 0)"
proof -
  have "length (filter (\<lambda>f. majorFace f = m \<and> ring f = r) (faces createKilominxGeometry))
        = length (filter (\<lambda>t. fst t = m \<and> fst (snd t) = r) (map cellTag (faces createKilominxGeometry)))"
    by (simp add: filter_map comp_def cellTag_def)
  also have "\<dots> = sum_list (map (\<lambda>k. if k = m then (if r = 0 then 1 else if r = 1 then 5 else if r = 2 \<and> 8 \<le> m then 5 else 0) else 0) [0..<12])"
    by (simp only: tags_faces_full count_cells)
  also have "\<dots> = (if r = 0 then 1 else if r = 1 then 5 else if r = 2 \<and> 8 \<le> m then 5 else 0)"
    using assms by (simp only: sum_list_single if_True)
  finally show ?thesis .
qed

section \<open>The colors of the full model\<close>

lemma fold_push_map: "fold (\<lambda>a acc. acc @ [h a]) as bs = bs @ map h as"
  by (induction as arbitrary: bs) simp_all

lemma getSolvedStateColors_eq:
  "getSolvedStateColors = map (\<lambda>t. colorMap ! (fst t mod 12)) (map cellTag (faces createKilominxGeometry))"
  by (simp add: getSolvedStateColors_def Let_def fold_push_map colorMap_def cellTag_def comp_def)

lemma replicate_6: "replicate 6 a = [a, a, a, a, a, a]"
  by (simp add: numeral_eq_Suc)

lemma replicate_11: "replicate 11 a = [a, a, a, a, a, a, a, a, a, a, a]"
  by (simp add: numeral_eq_Suc)

lemma colors_of_cells:
  "map (\<lambda>t. colorMap ! (fst t mod 12)) (cellsOf m) = replicate (cellCount m) (colorMap ! (m mod 12))"
  by (simp add: cellsOf_def cellCount_def upt_conv_Cons replicate_6 replicate_11)

lemma getSolvedStateColors_concat:
  "getSolvedStateColors = concat (map (\<lambda>m. replicate (cellCount m) (colorMap ! (m mod 12))) [0..<12])"
  unfolding getSolvedStateColors_eq tags_faces_full
  by (simp only: map_concat map_map comp_def colors_of_cells)

lemma getSolvedStateColors_list:
  "getSolvedStateColors =
     replicate 6 WHITE @ replicate 6 YELLOW @ replicate 6 DARK_BLUE @ replicate 6 LIGHT_BLUE
     @ replicate 6 RED @ replicate 6 PINK @ replicate 6 ORANGE @ replicate 6 LIGHT_GREEN
     @ replicate 11 DARK_GREEN @ replicate 11 PURPLE @ replicate 11 GREY @ replicate 11 DARK_BROWN"
  unfolding getSolvedStateColors_concat twelve
  by (simp add: cellCount_def colorMap_def del: replicate.simps replicate_Suc)

lemma majorFace_faces_full:
  assumes "f \<in> set (faces createKilominxGeometry)"
  shows "majorFace f < 12"
proof -
  have "cellTag f \<in> set (map cellTag (faces createKilominxGeometry))"
    using assms by simp
  then have "cellTag f \<in> set (concat (map cellsOf [0..<12]))"
    by (simp only: tags_faces_full)
  then obtain m where "m < 12" "cellTag f \<in> set (cellsOf m)"
    by auto
  then show ?thesis
    by (auto simp add: cellTag_def cellsOf_def simp del: upt.simps split: if_splits)
qed

section \<open>The faces of the full geometry by index\<close>

lemma nth_faces_full:
  assumes "A \<in> set (faces createKilominxGeometry)"
  obtains a where "a < 92" and "A = faces createKilominxGeometry ! a"
    and "face_id A = a" and "neighbors A = neighborsOf generateKilominxFaces a"
proof -
  obtain a where a: "a < length (faces createKilominxGeometry)" "A = faces createKilominxGeometry ! a"
    using assms by (metis in_set_conv_nth)
  then have a92: "a < 92" by (simp add: length_faces_full)
  have "face_id A = map face_id (faces createKilominxGeometry) ! a"
    using a by simp
  then have "face_id A = a"
    using a92 by (simp only: ids_faces_full) simp
  moreover have "neighbors A = neighborsOf generateKilominxFaces a"
    using a92 a(2) by (simp add: faces_full neighbors_calculateNeighbors length_generateKilominxFaces)
  ultimately show thesis using that a92 a(2) by blast
qed

lemma anchor_0: "generateDodecahedronVertices ! 0 = \<lparr> x = 2, y = 2, z = 2 \<rparr>"
  by (simp add: generateDodecahedronVertices_def cubeVertices_def scaledVertex_def
        createVector3_def SCALE_def)

lemma centers_0_1:
  "center (generateKilominxFaces ! 0) = \<lparr> x = 2, y = 2, z = 2 \<rparr>
   \<and> center (generateKilominxFaces ! 1) = \<lparr> x = 2 + 0.48, y = 2, z = 2 \<rparr>"
proof -
  have upt12: "[0..<12] = 0 # [1..<12]" and upt5: "[0..<5] = 0 # [1..<5]"
    by (simp_all add: upt_conv_Cons)
  have "map center generateKilominxFaces ! 0 = \<lparr> x = 2, y = 2, z = 2 \<rparr>
        \<and> map center generateKilominxFaces ! 1 = \<lparr> x = 2 + 0.48, y = 2, z = 2 \<rparr>"
    unfolding centers_generateKilominxFaces upt12
    by (simp add: cellCenters_def upt5 anchor_0 addVectors_def ringOffset_def scaleVector_def
          faceRadius_def del: upt.simps)
  then show ?thesis
    by (simp add: length_generateKilominxFaces)
qed

lemma neighbors_0_1:
  "1 \<in> set (neighborsOf generateKilominxFaces 0)"
proof -
  have "centerDistance \<lparr> x = 2, y = 2, z = 2 \<rparr> \<lparr> x = 2 + 0.48, y = 2, z = 2 \<rparr>
        = sqrt ((- 0.48) * (- 0.48))"
    by (simp add: centerDistance_def)
  also have "\<dots> = \<bar>- 0.48\<bar>"
    by (rule real_sqrt_abs2)
  finally have "centerDistance \<lparr> x = 2, y = 2, z = 2 \<rparr> \<lparr> x = 2 + 0.48, y = 2, z = 2 \<rparr> < threshold"
    by (simp add: threshold_def)
  then have "centerDistance (center (generateKilominxFaces ! 0)) (center (generateKilominxFaces ! 1)) < threshold"
    by (simp only: centers_0_1)
  then show ?thesis
    by (simp add: mem_neighborsOf length_generateKilominxFaces)
qed

section \<open>C1 and C3: face counts\<close>

text \<open>
  C1. The claim is that the full model returns 62 faces and the simple model 12. The
  simple model does return 12. The full model returns 92: eight major faces of six
  cells and four of eleven. The number 62 is the one the module's own comments and its
  validator name.
\<close>

theorem full_model_face_count:
  "length (faces createKilominxGeometry) = 92
   \<and> length (faces createKilominxGeometry) \<noteq> 62
   \<and> length (faces createKilominxGeometry_simple) = 12"
  by (simp add: length_faces_full length_faces_simple)

text \<open>
  C3. The full-model validator rejects the geometry built by the full model, and it does
  so at its first check, the face count.
\<close>

theorem validateGeometry_rejects_full:
  "validateGeometry createKilominxGeometry = False
   \<and> length (faces createKilominxGeometry) \<noteq> 62"
  by (simp add: validateGeometry_def length_faces_full)

section \<open>C10: the faces of the simple model\<close>

text \<open>
  C10. The simple model has twelve faces, and the face at index \<open>i\<close> has id and major
  face \<open>i\<close>, ring and ring position 0, the color white, the center at the origin,
  the normal along the second axis, no vertices and no neighbors.
\<close>

theorem simple_model_faces:
  "length (faces createKilominxGeometry_simple) = 12 \<and>
   (\<forall>i < 12. let f = faces createKilominxGeometry_simple ! i in
      face_id f = i \<and> majorFace f = i \<and> ring f = 0 \<and> ringPosition f = 0 \<and> color f = WHITE
      \<and> center f = \<lparr> x = 0, y = 0, z = 0 \<rparr> \<and> normal f = \<lparr> x = 0, y = 1, z = 0 \<rparr>
      \<and> vertices f = [] \<and> neighbors f = [])"
  by (simp add: faces_simple simpleFace_def del: upt.simps)

theorem simple_model_faces_witness:
  "(3::nat) < 12 \<and> face_id (faces createKilominxGeometry_simple ! 3) = 3
   \<and> majorFace (faces createKilominxGeometry_simple ! 3) = 3
   \<and> ring (faces createKilominxGeometry_simple ! 3) = 0
   \<and> color (faces createKilominxGeometry_simple ! 3) = WHITE
   \<and> vertices (faces createKilominxGeometry_simple ! 3) = []"
  using simple_model_faces by (simp add: Let_def)

section \<open>C4: vertices\<close>

text \<open>
  C4. The claim is that every face of either model has exactly five vertices. The faces
  of the simple model are built with an empty vertex list, so the claim fails there, at
  the first face already.
\<close>

theorem simple_model_face_has_no_vertices:
  "faces createKilominxGeometry_simple ! 0 \<in> set (faces createKilominxGeometry_simple)
   \<and> length (vertices (faces createKilominxGeometry_simple ! 0)) = 0
   \<and> length (vertices (faces createKilominxGeometry_simple ! 0)) \<noteq> 5"
  by (simp add: faces_simple simpleFace_def upt_conv_Cons)

text \<open>
  C4, amended. Every face of the full model has exactly five vertices, and every face of
  the simple model has none.
\<close>

theorem vertices_per_face:
  "(\<forall>f \<in> set (faces createKilominxGeometry). length (vertices f) = 5)
   \<and> (\<forall>f \<in> set (faces createKilominxGeometry_simple). vertices f = [])"
proof -
  have "\<forall>f \<in> set (faces createKilominxGeometry_simple). vertices f = []"
    by (auto simp add: faces_simple simpleFace_def simp del: upt.simps)
  then show ?thesis
    using vertices_faces_full by blast
qed

theorem vertices_per_face_witness:
  "faces createKilominxGeometry ! 0 \<in> set (faces createKilominxGeometry)
   \<and> length (vertices (faces createKilominxGeometry ! 0)) = 5
   \<and> faces createKilominxGeometry_simple ! 0 \<in> set (faces createKilominxGeometry_simple)
   \<and> vertices (faces createKilominxGeometry_simple ! 0) = []"
proof -
  have a: "faces createKilominxGeometry ! 0 \<in> set (faces createKilominxGeometry)"
    by (rule nth_mem) (simp add: length_faces_full)
  have b: "faces createKilominxGeometry_simple ! 0 \<in> set (faces createKilominxGeometry_simple)"
    by (rule nth_mem) (simp add: length_faces_simple)
  show ?thesis
    using vertices_per_face a b by blast
qed

section \<open>C2: solved-state colors\<close>

text \<open>
  C2. The claim is that the full-model \<open>getSolvedStateColors\<close> returns twelve
  colors, all distinct. It returns one color per face of the full geometry: 92 colors,
  the first two of them both white.
\<close>

theorem getSolvedStateColors_full_counterexample:
  "length getSolvedStateColors = 92 \<and> length getSolvedStateColors \<noteq> 12
   \<and> getSolvedStateColors ! 0 = WHITE \<and> getSolvedStateColors ! 1 = WHITE
   \<and> \<not> distinct getSolvedStateColors"
proof -
  have "getSolvedStateColors = WHITE # WHITE # drop 2 getSolvedStateColors"
    unfolding getSolvedStateColors_list by (simp add: replicate_6)
  then have "getSolvedStateColors ! 0 = WHITE \<and> getSolvedStateColors ! 1 = WHITE
             \<and> \<not> distinct getSolvedStateColors"
    by (metis One_nat_def distinct_length_2_or_more nth_Cons_0 nth_Cons_Suc)
  moreover have "length getSolvedStateColors = 92"
    unfolding getSolvedStateColors_list by simp
  ultimately show ?thesis by simp
qed

text \<open>
  C2, amended. The full-model \<open>getSolvedStateColors\<close> returns one color per face of
  the full geometry, the color of a face being the entry of the twelve-color palette at
  the index of its major face: six or eleven copies of each palette color, in palette
  order. The simple-model \<open>getSolvedStateColors\<close> returns the palette itself: twelve
  colors in the fixed order white, yellow, dark blue, light blue, red, pink, orange,
  light green, dark green, purple, grey, dark brown, with twelve distinct hex values.
\<close>

theorem getSolvedStateColors_amended:
  "getSolvedStateColors
     = map (\<lambda>f. getSolvedStateColors_simple ! majorFace f) (faces createKilominxGeometry)
   \<and> getSolvedStateColors =
     replicate 6 WHITE @ replicate 6 YELLOW @ replicate 6 DARK_BLUE @ replicate 6 LIGHT_BLUE
     @ replicate 6 RED @ replicate 6 PINK @ replicate 6 ORANGE @ replicate 6 LIGHT_GREEN
     @ replicate 11 DARK_GREEN @ replicate 11 PURPLE @ replicate 11 GREY @ replicate 11 DARK_BROWN
   \<and> getSolvedStateColors_simple =
     [WHITE, YELLOW, DARK_BLUE, LIGHT_BLUE, RED, PINK,
      ORANGE, LIGHT_GREEN, DARK_GREEN, PURPLE, GREY, DARK_BROWN]
   \<and> length getSolvedStateColors_simple = 12
   \<and> distinct (map FaceColor_value getSolvedStateColors_simple)"
proof -
  have "map (\<lambda>face. colorMap ! (majorFace face mod length colorMap)) (faces createKilominxGeometry)
        = map (\<lambda>f. getSolvedStateColors_simple ! majorFace f) (faces createKilominxGeometry)"
    by (rule map_cong)
       (use majorFace_faces_full in \<open>simp_all add: colorMap_def getSolvedStateColors_simple_def\<close>)
  then have "getSolvedStateColors
        = map (\<lambda>f. getSolvedStateColors_simple ! majorFace f) (faces createKilominxGeometry)"
    by (simp add: getSolvedStateColors_def Let_def fold_push_map)
  moreover have "distinct (map FaceColor_value getSolvedStateColors_simple)"
    by (simp add: getSolvedStateColors_simple_def)
  ultimately show ?thesis
    using getSolvedStateColors_list by (simp add: getSolvedStateColors_simple_def)
qed

section \<open>C7: ids and emission order\<close>

text \<open>
  C7. In both models the ids of the faces, read in array order, are
  \<open>0, 1, \<dots>, n - 1\<close> for \<open>n\<close> faces: contiguous, without gap or duplicate, and
  assigned in emission order. In the full model the cells are emitted major face by
  major face in anchor order, for each one the center cell, the five inner cells by
  position and, where there is an outer ring, the five outer cells by position; their
  centers are the anchor and the anchor moved by the ring offsets at the angles
  \<open>72\<degree> \<sdot> i\<close>. In the simple model face \<open>i\<close> is the center cell of major face
  \<open>i\<close>.
\<close>

theorem ids_contiguous_in_emission_order:
  "map face_id (faces createKilominxGeometry) = [0..<length (faces createKilominxGeometry)]
   \<and> map cellTag (faces createKilominxGeometry) = concat (map cellsOf [0..<12])
   \<and> map center (faces createKilominxGeometry)
       = concat (map (\<lambda>m. cellCenters (generateDodecahedronVertices ! m) m) [0..<12])
   \<and> map face_id (faces createKilominxGeometry_simple)
       = [0..<length (faces createKilominxGeometry_simple)]
   \<and> map cellTag (faces createKilominxGeometry_simple) = map (\<lambda>i. (i, 0, 0)) [0..<12]"
proof -
  have "map face_id (faces createKilominxGeometry_simple) = [0..<12]"
    unfolding faces_simple by (rule nth_equalityI) (simp_all add: simpleFace_def)
  moreover have "map cellTag (faces createKilominxGeometry_simple) = map (\<lambda>i. (i, 0, 0)) [0..<12]"
    unfolding faces_simple by (rule nth_equalityI) (simp_all add: simpleFace_def cellTag_def)
  ultimately show ?thesis
    by (simp only: ids_faces_full tags_faces_full centers_faces_full length_faces_full
          length_faces_simple simp_thms)
qed

section \<open>C8: rings\<close>

text \<open>
  C8. In the full model, every major face \<open>m\<close> below 12 has exactly one face of ring
  0 and exactly five faces of ring 1; it has no face of ring 2 when \<open>m\<close> is one of the
  first eight, and exactly five faces of ring 2 when \<open>m\<close> is one of the last four.
\<close>

theorem ring_counts_per_major_face:
  assumes "m < 12"
  shows "length (filter (\<lambda>f. majorFace f = m \<and> ring f = 0) (faces createKilominxGeometry)) = 1
       \<and> length (filter (\<lambda>f. majorFace f = m \<and> ring f = 1) (faces createKilominxGeometry)) = 5
       \<and> (m < 8 \<longrightarrow> filter (\<lambda>f. majorFace f = m \<and> ring f = 2) (faces createKilominxGeometry) = [])
       \<and> (8 \<le> m \<longrightarrow> length (filter (\<lambda>f. majorFace f = m \<and> ring f = 2) (faces createKilominxGeometry)) = 5)"
  using count_faces_full [OF assms, of 0] count_faces_full [OF assms, of 1]
    count_faces_full [OF assms, of 2]
  by (auto simp del: upt.simps)

theorem ring_counts_per_major_face_witness:
  "(3::nat) < 12 \<and> (3::nat) < 8 \<and> (9::nat) < 12 \<and> (8::nat) \<le> 9
   \<and> length (filter (\<lambda>f. majorFace f = 3 \<and> ring f = 0) (faces createKilominxGeometry)) = 1
   \<and> length (filter (\<lambda>f. majorFace f = 3 \<and> ring f = 1) (faces createKilominxGeometry)) = 5
   \<and> filter (\<lambda>f. majorFace f = 3 \<and> ring f = 2) (faces createKilominxGeometry) = []
   \<and> length (filter (\<lambda>f. majorFace f = 9 \<and> ring f = 2) (faces createKilominxGeometry)) = 5"
  using ring_counts_per_major_face [of 3] ring_counts_per_major_face [of 9] by simp

section \<open>C6: neighbors\<close>

text \<open>
  C6. In the full model the neighbor relation is symmetric: whenever the id of a face
  \<open>B\<close> is among the neighbors of a face \<open>A\<close>, the id of \<open>A\<close> is among the
  neighbors of \<open>B\<close>. It is irreflexive: no face has its own id among its neighbors.
  The proof uses of the arithmetic only that \<open>(a - b) * (a - b)\<close> and
  \<open>(b - a) * (b - a)\<close> are equal, which holds of doubles as well
  (\<open>dsub_square\<close> below).
\<close>

theorem neighbors_symmetric_irreflexive:
  "(\<forall>A \<in> set (faces createKilominxGeometry). \<forall>B \<in> set (faces createKilominxGeometry).
      face_id B \<in> set (neighbors A) \<longrightarrow> face_id A \<in> set (neighbors B))
   \<and> (\<forall>A \<in> set (faces createKilominxGeometry). face_id A \<notin> set (neighbors A))"
proof (intro conjI ballI impI)
  fix A B
  assume A: "A \<in> set (faces createKilominxGeometry)"
    and B: "B \<in> set (faces createKilominxGeometry)"
    and AB: "face_id B \<in> set (neighbors A)"
  from A obtain a where a: "a < 92" "face_id A = a" "neighbors A = neighborsOf generateKilominxFaces a"
    by (rule nth_faces_full)
  from B obtain b where b: "b < 92" "face_id B = b" "neighbors B = neighborsOf generateKilominxFaces b"
    by (rule nth_faces_full)
  from AB have "b \<in> set (neighborsOf generateKilominxFaces a)"
    by (simp add: a b)
  then have "a \<noteq> b"
    and "centerDistance (center (generateKilominxFaces ! a)) (center (generateKilominxFaces ! b)) < threshold"
    by (simp_all add: mem_neighborsOf)
  then have "a \<in> set (neighborsOf generateKilominxFaces b)"
    using a(1) by (simp add: mem_neighborsOf length_generateKilominxFaces centerDistance_commute [of "center (generateKilominxFaces ! b)"])
  then show "face_id A \<in> set (neighbors B)"
    by (simp add: a b)
next
  fix A
  assume A: "A \<in> set (faces createKilominxGeometry)"
  from A obtain a where a: "a < 92" "face_id A = a" "neighbors A = neighborsOf generateKilominxFaces a"
    by (rule nth_faces_full)
  show "face_id A \<notin> set (neighbors A)"
    by (simp add: a mem_neighborsOf)
qed

theorem neighbors_symmetric_irreflexive_witness:
  "faces createKilominxGeometry ! 0 \<in> set (faces createKilominxGeometry)
   \<and> faces createKilominxGeometry ! 1 \<in> set (faces createKilominxGeometry)
   \<and> face_id (faces createKilominxGeometry ! 1) \<in> set (neighbors (faces createKilominxGeometry ! 0))
   \<and> face_id (faces createKilominxGeometry ! 0) \<in> set (neighbors (faces createKilominxGeometry ! 1))
   \<and> face_id (faces createKilominxGeometry ! 0) \<notin> set (neighbors (faces createKilominxGeometry ! 0))"
proof -
  let ?fs = "faces createKilominxGeometry"
  have m0: "?fs ! 0 \<in> set ?fs" and m1: "?fs ! 1 \<in> set ?fs"
    by (rule nth_mem, simp add: length_faces_full)+
  have "face_id (?fs ! 1) = map face_id ?fs ! 1"
    by (simp add: length_faces_full)
  then have id1: "face_id (?fs ! 1) = 1"
    by (simp only: ids_faces_full) simp
  have "neighbors (?fs ! 0) = neighborsOf generateKilominxFaces 0"
    by (simp add: faces_full neighbors_calculateNeighbors length_generateKilominxFaces)
  then have hyp: "face_id (?fs ! 1) \<in> set (neighbors (?fs ! 0))"
    using neighbors_0_1 id1 by simp
  show ?thesis
    using neighbors_symmetric_irreflexive m0 m1 hyp by blast
qed

section \<open>The pentagon in exact arithmetic\<close>

text \<open>
  In the exact reading \<open>generatePentagonVertices\<close> builds a regular pentagon: for a
  unit normal \<open>n\<close> the vectors \<open>right\<close> and \<open>forward\<close> are an orthonormal frame
  of the plane orthogonal to \<open>n\<close>, and vertex \<open>i\<close> is the center moved by
  \<open>r\<close> times the unit vector at the angle \<open>72\<degree> \<sdot> i\<close> of that frame.

  C5 asks this, within a tolerance, of the doubles that the function returns. Those carry
  the rounding of every step and the error of \<open>Math.cos\<close> and \<open>Math.sin\<close>, which
  the language leaves to the implementation; nothing is proved of them here.
\<close>

lemma normalizeVector_unit:
  assumes "dotProduct v v \<noteq> 0"
  shows "dotProduct (normalizeVector v) (normalizeVector v) = 1"
proof -
  let ?s = "x v * x v + y v * y v + z v * z v"
  let ?l = "sqrt ?s"
  have "0 \<le> ?s" by simp
  moreover have "?s \<noteq> 0" using assms unfolding dotProduct_def .
  ultimately have s: "0 < ?s" by linarith
  then have l: "?l \<noteq> 0" and ll: "?l * ?l = ?s" by simp_all
  have n: "normalizeVector v = \<lparr> x = x v / ?l, y = y v / ?l, z = z v / ?l \<rparr>"
    using l by (simp add: normalizeVector_def Let_def)
  have e: "a / ?l * (a / ?l) = a * a / ?s" for a
    by (simp only: times_divide_times_eq ll)
  have "dotProduct (normalizeVector v) (normalizeVector v)
        = x v * x v / ?s + y v * y v / ?s + z v * z v / ?s"
    by (simp add: n dotProduct_def e)
  also have "\<dots> = ?s / ?s"
    by (simp only: add_divide_distrib)
  also have "\<dots> = 1" using s by simp
  finally show ?thesis .
qed

lemma normalizeVector_unchanged:
  assumes "dotProduct v v = 1"
  shows "normalizeVector v = v"
  using assms by (simp add: normalizeVector_def dotProduct_def Let_def)

lemma dot_normalizeVector:
  "dotProduct (normalizeVector v) w = 0 \<longleftrightarrow> dotProduct v v = 0 \<or> dotProduct v w = 0"
proof -
  let ?s = "x v * x v + y v * y v + z v * z v"
  have s0: "0 \<le> ?s" by simp
  show ?thesis
  proof (cases "?s = 0")
    case True
    then show ?thesis by (simp add: normalizeVector_def dotProduct_def Let_def)
  next
    case False
    then have l: "sqrt ?s \<noteq> 0" by simp
    have "dotProduct (normalizeVector v) w = dotProduct v w / sqrt ?s"
      using l by (simp add: normalizeVector_def dotProduct_def Let_def add_divide_distrib)
    then show ?thesis using l False by (simp add: dotProduct_def)
  qed
qed

lemma dot_crossProduct_left: "dotProduct (crossProduct a b) a = 0"
  by (simp add: dotProduct_def crossProduct_def algebra_simps)

lemma dot_crossProduct_right: "dotProduct (crossProduct a b) b = 0"
  by (simp add: dotProduct_def crossProduct_def algebra_simps)

lemma lagrange:
  "dotProduct (crossProduct a b) (crossProduct a b)
   = dotProduct a a * dotProduct b b - dotProduct a b * dotProduct a b"
  by (simp add: dotProduct_def crossProduct_def algebra_simps)

lemma dotProduct_commute: "dotProduct a b = dotProduct b a"
  by (simp add: dotProduct_def algebra_simps)

lemma pentagon_frame:
  assumes unit: "dotProduct n n = 1"
  defines "up \<equiv> (if \<bar>y n\<bar> > 0.9 then createVector3 1 0 0 else createVector3 0 1 0)"
  defines "right \<equiv> normalizeVector (crossProduct up n)"
  defines "forward \<equiv> normalizeVector (crossProduct n right)"
  shows "orthonormalFrame n right forward"
proof -
  have up1: "dotProduct up up = 1"
    by (simp add: up_def dotProduct_def createVector3_def)
  have sq: "y n * y n = \<bar>y n\<bar> * \<bar>y n\<bar>"
    by simp
  have "dotProduct up n * dotProduct up n < 1"
  proof (cases "\<bar>y n\<bar> > 0.9")
    case True
    then have e: "dotProduct up n = x n"
      by (simp add: up_def dotProduct_def createVector3_def)
    have "x n * x n + y n * y n + z n * z n = 1"
      using unit by (simp add: dotProduct_def)
    moreover have "0 \<le> z n * z n" by simp
    moreover have "0.9 * 0.9 < \<bar>y n\<bar> * \<bar>y n\<bar>"
      by (rule mult_strict_mono) (use True in simp_all)
    ultimately have "x n * x n < 1" unfolding sq by linarith
    then show ?thesis by (simp only: e)
  next
    case False
    then have e: "dotProduct up n = y n"
      by (simp add: up_def dotProduct_def createVector3_def)
    have "\<bar>y n\<bar> * \<bar>y n\<bar> \<le> 0.9 * 0.9"
      by (rule mult_mono) (use False in simp_all)
    then have "y n * y n < 1" unfolding sq by linarith
    then show ?thesis by (simp only: e)
  qed
  then have c: "dotProduct (crossProduct up n) (crossProduct up n) \<noteq> 0"
    by (simp add: lagrange up1 unit)
  have r1: "dotProduct right right = 1"
    unfolding right_def using c by (rule normalizeVector_unit)
  have rn: "dotProduct right n = 0"
    unfolding right_def by (simp add: dot_normalizeVector dot_crossProduct_right)
  have "dotProduct n right = 0"
    using rn by (simp add: dotProduct_commute)
  then have "dotProduct (crossProduct n right) (crossProduct n right) = 1"
    by (simp add: lagrange unit r1)
  then have f: "forward = crossProduct n right"
    unfolding forward_def by (rule normalizeVector_unchanged)
  have f1: "dotProduct forward forward = 1"
    unfolding f by fact
  have fn: "dotProduct forward n = 0"
    unfolding f by (rule dot_crossProduct_left)
  have "dotProduct forward right = 0"
    unfolding f by (rule dot_crossProduct_right)
  then have rf: "dotProduct right forward = 0"
    by (simp add: dotProduct_commute)
  show ?thesis
    by (simp add: orthonormalFrame_def r1 f1 rf rn fn)
qed

lemma frame_point:
  fixes c e1 e2 :: "real Vector3"
  assumes "orthonormalFrame n e1 e2"
  defines "p \<equiv> (\<lambda>a b. addVectors c (addVectors (scaleVector e1 a) (scaleVector e2 b)))"
  shows "dotProduct (fromTo c (p a b)) n = 0"
    and "dotProduct (fromTo c (p a b)) (fromTo c (p a' b')) = a * a' + b * b'"
proof -
  have d: "fromTo c (p a b) = addVectors (scaleVector e1 a) (scaleVector e2 b)" for a b
    by (simp add: p_def fromTo_def addVectors_def scaleVector_def)
  have bil: "dotProduct (addVectors (scaleVector u a) (scaleVector v b)) w
             = a * dotProduct u w + b * dotProduct v w" for u v w a b
    by (simp add: dotProduct_def addVectors_def scaleVector_def algebra_simps)
  have bir: "dotProduct w (addVectors (scaleVector u a) (scaleVector v b))
             = a * dotProduct w u + b * dotProduct w v" for u v w a b
    by (simp add: dotProduct_def addVectors_def scaleVector_def algebra_simps)
  have o: "dotProduct e1 e1 = 1" "dotProduct e2 e2 = 1" "dotProduct e1 e2 = 0"
    "dotProduct e2 e1 = 0" "dotProduct e1 n = 0" "dotProduct e2 n = 0"
    using assms(1) by (simp_all add: orthonormalFrame_def dotProduct_commute [of e2 e1])
  show "dotProduct (fromTo c (p a b)) n = 0"
    by (simp add: d bil o)
  show "dotProduct (fromTo c (p a b)) (fromTo c (p a' b')) = a * a' + b * b'"
    by (simp add: d bil bir o)
qed

lemma generatePentagonVertices_frame:
  assumes "dotProduct n n = 1"
  obtains e1 e2 where "orthonormalFrame n e1 e2"
    and "generatePentagonVertices c n r
         = map (\<lambda>i. addVectors c (addVectors (scaleVector e1 (cos (real i * 2 * pi / 5) * r))
                                              (scaleVector e2 (sin (real i * 2 * pi / 5) * r))))
             [0..<5]"
proof -
  let ?up = "if \<bar>y n\<bar> > 0.9 then createVector3 1 0 0 else createVector3 0 1 0"
  let ?right = "normalizeVector (crossProduct ?up n)"
  let ?forward = "normalizeVector (crossProduct n ?right)"
  have "orthonormalFrame n ?right ?forward"
    using assms by (rule pentagon_frame)
  moreover have "generatePentagonVertices c n r
         = map (\<lambda>i. addVectors c (addVectors (scaleVector ?right (cos (real i * 2 * pi / 5) * r))
                                              (scaleVector ?forward (sin (real i * 2 * pi / 5) * r))))
             [0..<5]"
    unfolding generatePentagonVertices_def Let_def fold_push_map pentagonVertex_def by simp
  ultimately show thesis by (rule that)
qed

lemma cos_wrap:
  assumes "i < 5"
  shows "cos (real ((i + 1) mod 5) * 2 * pi / 5 - real i * 2 * pi / 5) = cos (2 * pi / 5)"
proof (cases "i = 4")
  case True
  have "real ((4 + 1) mod 5) * 2 * pi / 5 - real 4 * 2 * pi / 5 = - (2 * pi - 2 * pi / 5)"
    by simp
  then have "cos (real ((4 + 1) mod 5) * 2 * pi / 5 - real 4 * 2 * pi / 5)
             = cos (- (2 * pi - 2 * pi / 5))"
    by (rule arg_cong)
  also have "\<dots> = cos (2 * pi - 2 * pi / 5)"
    by (rule cos_minus)
  also have "\<dots> = cos (2 * pi / 5)"
    by (rule cos_2pi_minus)
  finally show ?thesis unfolding True .
next
  case False
  with assms have m: "(i + 1) mod 5 = i + 1" by simp
  have "real (i + 1) * 2 * pi / 5 - real i * 2 * pi / 5 = 2 * pi / 5"
    by (simp add: field_simps)
  then show ?thesis unfolding m by (rule arg_cong)
qed

lemma generatePentagonVertices_exact:
  fixes c n :: "real Vector3"
  assumes unit: "dotProduct n n = 1" and r: "0 < r" and i: "i < 5"
  defines "vs \<equiv> generatePentagonVertices c n r"
  shows "length vs = 5"
    and "dotProduct (fromTo c (vs ! i)) n = 0"
    and "sqrt (dotProduct (fromTo c (vs ! i)) (fromTo c (vs ! i))) = r"
    and "dotProduct (fromTo c (vs ! i)) (fromTo c (vs ! ((i + 1) mod 5))) = r * r * cos (2 * pi / 5)"
proof -
  from unit obtain e1 e2 where f: "orthonormalFrame n e1 e2"
    and v: "vs = map (\<lambda>i. addVectors c (addVectors (scaleVector e1 (cos (real i * 2 * pi / 5) * r))
                                              (scaleVector e2 (sin (real i * 2 * pi / 5) * r))))
             [0..<5]"
    unfolding vs_def by (rule generatePentagonVertices_frame)
  have nth: "vs ! j = addVectors c (addVectors (scaleVector e1 (cos (real j * 2 * pi / 5) * r))
                                              (scaleVector e2 (sin (real j * 2 * pi / 5) * r)))"
    if "j < 5" for j
    using that unfolding v by (simp del: upt.simps)
  have g: "(a * r) * (a' * r) + (b * r) * (b' * r) = r * r * (a * a' + b * b')" for a a' b b' :: real
    by (simp add: algebra_simps)
  show "length vs = 5" by (simp add: vs_def length_generatePentagonVertices)
  show "dotProduct (fromTo c (vs ! i)) n = 0"
    unfolding nth [OF i] using f by (rule frame_point(1))
  have "dotProduct (fromTo c (vs ! i)) (fromTo c (vs ! i))
        = r * r * (cos (real i * 2 * pi / 5) * cos (real i * 2 * pi / 5)
                   + sin (real i * 2 * pi / 5) * sin (real i * 2 * pi / 5))"
    unfolding nth [OF i] frame_point(2) [OF f] by (rule g)
  also have "\<dots> = r * r"
    by (simp only: sin_cos_squared_add3 mult_1_right)
  finally show "sqrt (dotProduct (fromTo c (vs ! i)) (fromTo c (vs ! i))) = r"
    using r by simp
  have j: "(i + 1) mod 5 < 5" by simp
  have "dotProduct (fromTo c (vs ! i)) (fromTo c (vs ! ((i + 1) mod 5)))
        = r * r * (cos (real ((i + 1) mod 5) * 2 * pi / 5) * cos (real i * 2 * pi / 5)
                   + sin (real ((i + 1) mod 5) * 2 * pi / 5) * sin (real i * 2 * pi / 5))"
    unfolding nth [OF i] nth [OF j] frame_point(2) [OF f] g by (simp only: mult.commute)
  also have "\<dots> = r * r * cos (real ((i + 1) mod 5) * 2 * pi / 5 - real i * 2 * pi / 5)"
    by (simp only: cos_diff)
  also have "\<dots> = r * r * cos (2 * pi / 5)"
    using i by (simp only: cos_wrap)
  finally show "dotProduct (fromTo c (vs ! i)) (fromTo c (vs ! ((i + 1) mod 5)))
                = r * r * cos (2 * pi / 5)" .
qed

section \<open>Rounding and its error\<close>

lemma roundEven_small: "0 \<le> t \<Longrightarrow> t < 1/2 \<Longrightarrow> roundEven t = 0"
proof -
  assume a: "0 \<le> t" "t < 1/2"
  then have "\<lfloor>t\<rfloor> = 0" by linarith
  then show ?thesis using a by (simp add: roundEven_def)
qed

lemma roundEven_of_int: "roundEven (of_int n) = n"
  by (simp add: roundEven_def)

lemma quantum_powr: "quantum (2 powr of_int e) = 2 powr (of_int (max e (- 1022)) - 52)"
  by (simp add: quantum_def)

lemma roundMag_tiny: "roundMag (2 powr (- 1200)) = 0"
proof -
  have q: "quantum (2 powr (- 1200)) = 2 powr (- 1074)"
    using quantum_powr [of "- 1200"] by simp
  have "(2::real) powr (- 1200) / 2 powr (- 1074) = 2 powr (- 126)"
    by (simp flip: powr_diff)
  moreover have "(2::real) powr (- 126) < 1 / 2"
  proof -
    have "(2::real) powr (- 126) < 2 powr (- 1)"
      by (rule powr_less_mono) simp_all
    also have "(2::real) powr (- 1) = 1 / 2"
      by (simp add: powr_minus)
    finally show ?thesis .
  qed
  ultimately have "roundEven (2 powr (- 1200) / 2 powr (- 1074)) = 0"
    by (simp add: roundEven_small)
  then show ?thesis
    by (simp add: roundMag_def q)
qed

lemma roundMag_exact: "roundMag (2 powr (- 600)) = 2 powr (- 600)"
proof -
  have q: "quantum (2 powr (- 600)) = 2 powr (- 652)"
    using quantum_powr [of "- 600"] by simp
  have d: "(2::real) powr (- 600) / 2 powr (- 652) = 2 powr 52"
    by (simp flip: powr_diff)
  have e: "(2::real) powr 52 = of_int (2 ^ 52)"
    by (simp add: powr_realpow)
  have r: "roundEven (2 powr 52) = 2 ^ 52"
    by (simp only: e roundEven_of_int)
  have nz: "(2::real) powr (- 600) \<noteq> 0"
    by simp
  have "roundMag (2 powr (- 600))
        = of_int (roundEven (2 powr (- 600) / quantum (2 powr (- 600)))) * quantum (2 powr (- 600))"
    by (simp only: roundMag_def nz if_False)
  also have "\<dots> = of_int (roundEven (2 powr 52)) * 2 powr (- 652)"
    by (simp only: q d)
  also have "\<dots> = of_int (2 ^ 52) * 2 powr (- 652)"
    by (simp only: r)
  also have "\<dots> = 2 powr 52 * 2 powr (- 652)"
    by (simp only: e)
  also have "\<dots> = 2 powr (52 + (- 652))"
    by (rule powr_add [symmetric])
  also have "\<dots> = 2 powr (- 600)"
    by simp
  finally show ?thesis .
qed

lemma roundEven_error: "\<bar>of_int (roundEven t) - t\<bar> \<le> 1 / 2"
proof -
  have "of_int \<lfloor>t\<rfloor> \<le> t" "t < of_int \<lfloor>t\<rfloor> + 1"
    by linarith+
  then show ?thesis
    unfolding roundEven_def Let_def by (auto simp add: abs_le_iff)
qed

lemma quantum_pos: "0 < quantum m"
  by (simp add: quantum_def)

lemma quantum_le:
  assumes "2 powr (- 1022) \<le> m"
  shows "quantum m \<le> m * 2 powr (- 52)"
proof -
  have m: "0 < m"
    using assms by (rule less_le_trans [rotated]) simp
  have "- 1022 \<le> log 2 m"
    using assms m by (simp add: le_log_iff)
  then have "- 1022 \<le> \<lfloor>log 2 m\<rfloor>" by linarith
  then have "max \<lfloor>log 2 m\<rfloor> (- 1022) = \<lfloor>log 2 m\<rfloor>" by (rule max_absorb1)
  then have "quantum m = 2 powr (of_int \<lfloor>log 2 m\<rfloor> - 52)"
    by (simp only: quantum_def)
  also have "\<dots> = 2 powr of_int \<lfloor>log 2 m\<rfloor> * 2 powr (- 52)"
    by (simp add: powr_diff powr_minus field_simps)
  also have "\<dots> \<le> 2 powr log 2 m * 2 powr (- 52)"
    by (rule mult_right_mono) simp_all
  also have "2 powr log 2 m = m"
    using m by simp
  finally show ?thesis .
qed

lemma roundMag_error:
  assumes "2 powr (- 1022) \<le> m"
  shows "\<bar>roundMag m - m\<bar> \<le> m * 2 powr (- 53)"
proof -
  have m: "0 < m"
    using assms by (rule less_le_trans [rotated]) simp
  let ?q = "quantum m"
  let ?n = "of_int (roundEven (m / ?q)) :: real"
  have q: "0 < ?q" by (rule quantum_pos)
  have "roundMag m - m = (?n - m / ?q) * ?q"
    using m q by (simp add: roundMag_def field_simps)
  then have "\<bar>roundMag m - m\<bar> = \<bar>?n - m / ?q\<bar> * ?q"
    using q by (simp add: abs_mult)
  also have "\<dots> \<le> 1 / 2 * ?q"
    using q roundEven_error [of "m / ?q"] by (intro mult_right_mono) simp_all
  also have "\<dots> \<le> 1 / 2 * (m * 2 powr (- 52))"
    using quantum_le [OF assms] by simp
  also have "\<dots> = m * 2 powr (- 53)"
  proof -
    have "(2::real) powr (- 52) = 2 powr (1 + (- 53))"
      by simp
    also have "\<dots> = 2 powr 1 * 2 powr (- 53)"
      by (rule powr_add)
    finally show ?thesis by simp
  qed
  finally show ?thesis .
qed

lemma roundoff_bounds: "0 < roundoff" "roundoff < 1"
proof -
  show "0 < roundoff" by (simp add: roundoff_def)
  have "(2::real) powr (- 53) < 2 powr 0"
    by (rule powr_less_mono) simp_all
  then show "roundoff < 1" by (simp add: roundoff_def)
qed

lemma roundoff_small: "roundoff \<le> 1 / 10 ^ 12"
proof -
  have "(2::real) powr (- 53) \<le> 2 powr (- 40)"
    by (rule powr_mono) simp_all
  also have "(2::real) powr (- 40) = 1 / 2 ^ 40"
    by (simp add: powr_minus powr_realpow field_simps)
  also have "\<dots> \<le> 1 / 10 ^ 12"
    by simp
  finally show ?thesis by (simp add: roundoff_def)
qed

lemma roundMag_0: "roundMag 0 = 0"
  by (simp add: roundMag_def)

lemma round64_zero: "round64 s 0 = Num s 0"
proof -
  have "(0::real) < 2 powr 1024" by simp
  then show ?thesis
    by (simp add: round64_def roundMag_0 del: powr_numeral)
qed

lemma quantum_subnormal:
  assumes "0 < m" "m < 2 powr (- 1022)"
  shows "quantum m = 2 powr (- 1074)"
proof -
  have "log 2 m < - 1022"
    using assms by (simp add: log_less_iff)
  then have "\<lfloor>log 2 m\<rfloor> \<le> - 1022" by linarith
  then have "max \<lfloor>log 2 m\<rfloor> (- 1022) = - 1022" by (rule max_absorb2)
  then show ?thesis by (simp add: quantum_def)
qed

lemma roundMag_abs_error:
  assumes "0 \<le> t"
  shows "\<bar>roundMag t - t\<bar> \<le> t * roundoff + eta"
proof -
  have e: "0 \<le> eta" by (simp add: eta_def)
  consider "t = 0" | "0 < t" "t < 2 powr (- 1022)" | "2 powr (- 1022) \<le> t"
    using assms by fastforce
  then show ?thesis
  proof cases
    case 1
    then show ?thesis using e by (simp add: roundMag_0)
  next
    case 2
    let ?q = "quantum t"
    let ?n = "of_int (roundEven (t / ?q)) :: real"
    have q: "0 < ?q" by (rule quantum_pos)
    have "roundMag t - t = (?n - t / ?q) * ?q"
      using 2 q by (simp add: roundMag_def field_simps)
    then have "\<bar>roundMag t - t\<bar> = \<bar>?n - t / ?q\<bar> * ?q"
      using q by (simp add: abs_mult)
    also have "\<dots> \<le> 1 / 2 * ?q"
      using q roundEven_error [of "t / ?q"] by (intro mult_right_mono) simp_all
    also have "\<dots> = 1 / 2 * 2 powr (- 1074)"
      using 2 by (simp only: quantum_subnormal)
    also have "\<dots> = eta"
    proof -
      have "(2::real) powr (- 1074) = 2 powr (1 + (- 1075))" by simp
      also have "\<dots> = 2 powr 1 * 2 powr (- 1075)" by (rule powr_add)
      finally show ?thesis by (simp add: eta_def)
    qed
    finally have "\<bar>roundMag t - t\<bar> \<le> eta" .
    moreover have "0 \<le> t * roundoff" using assms roundoff_bounds by simp
    ultimately show ?thesis by linarith
  next
    case 3
    then have "\<bar>roundMag t - t\<bar> \<le> t * roundoff"
      unfolding roundoff_def by (rule roundMag_error)
    then show ?thesis using e by linarith
  qed
qed

lemma roundEven_nonneg: "0 \<le> t \<Longrightarrow> 0 \<le> roundEven t"
proof -
  assume "0 \<le> t"
  then have "0 \<le> \<lfloor>t\<rfloor>" by simp
  then show ?thesis unfolding roundEven_def Let_def by auto
qed

lemma roundMag_ge0: "0 \<le> t \<Longrightarrow> 0 \<le> roundMag t"
proof -
  assume t: "0 \<le> t"
  have "0 \<le> t / quantum t" using t quantum_pos [of t] by simp
  then have "0 \<le> roundEven (t / quantum t)" by (rule roundEven_nonneg)
  then show ?thesis using quantum_pos [of t] by (simp add: roundMag_def)
qed

lemma eta_small: "0 < eta" "eta \<le> 1 / 2 ^ 1000"
proof -
  show "0 < eta" by (simp add: eta_def)
  have "(2::real) powr (- 1075) \<le> 2 powr (- 1000)"
    by (rule powr_mono) simp_all
  also have "(2::real) powr (- 1000) = 1 / 2 ^ 1000"
    by (simp add: powr_minus powr_realpow field_simps)
  finally show "eta \<le> 1 / 2 ^ 1000" by (simp add: eta_def)
qed

lemma roundoff_eq: "roundoff = 1 / 2 ^ 53"
  by (simp add: roundoff_def powr_minus powr_realpow field_simps)

lemma round64_finite:
  assumes "0 \<le> t" "t \<le> pow2 1023"
  shows "round64 s t = Num s (roundMag t)"
proof -
  define P :: real where "P = 2 powr 1023"
  have t: "t \<le> P" using assms(2) by (simp only: pow2_def P_def)
  have "(1::real) = 2 powr 0" by simp
  also have "\<dots> \<le> 2 powr 1023" by (rule powr_mono) simp_all
  finally have P1: "1 \<le> P" by (simp only: P_def)
  have "(2::real) powr 1024 = 2 powr (1 + 1023)" by simp
  also have "\<dots> = 2 powr 1 * 2 powr 1023" by (rule powr_add)
  finally have P2: "(2::real) powr 1024 = 2 * P" by (simp add: P_def del: powr_numeral)
  have "roundMag t \<le> t + (t * roundoff + eta)"
    using roundMag_abs_error [OF assms(1)] by linarith
  moreover have "t * roundoff \<le> t * (1 / 4)"
    using assms(1) roundoff_small by (intro mult_left_mono) simp_all
  moreover have "eta \<le> 1 / 4"
    using eta_small(2) by (rule order_trans) simp
  ultimately have "roundMag t < 2 * P" using t P1 by linarith
  then have "\<not> 2 powr 1024 \<le> roundMag t" by (simp only: P2 not_le)
  then show ?thesis
    by (simp add: round64_def Let_def del: powr_numeral)
qed

lemma finiteNumber_cases:
  assumes "finiteNumber a"
  obtains s m where "a = Num s m" "0 \<le> m"
  using assms by (cases a) simp_all

lemma abs_signed: "0 \<le> m \<Longrightarrow> \<bar>signed s m\<bar> = m"
  by (simp add: signed_def)

lemma signed_mult: "signed (s \<noteq> t) (m * n) = signed s m * signed t n"
  by (simp add: signed_def)

lemma signed_div: "signed (s \<noteq> t) (m / n) = signed s m / signed t n"
  by (simp add: signed_def)

lemma signed_abs: "signed (r < 0) \<bar>r\<bar> = r"
  by (simp add: signed_def)

lemma round64_value:
  assumes "0 \<le> t" "t \<le> pow2 1023"
  shows "finiteNumber (round64 s t)"
    and "\<bar>dvalue (round64 s t) - signed s t\<bar> \<le> t * roundoff + eta"
proof -
  have r: "round64 s t = Num s (roundMag t)"
    using assms by (rule round64_finite)
  show "finiteNumber (round64 s t)"
    using roundMag_ge0 [OF assms(1)] by (simp add: r)
  have "\<bar>signed s (roundMag t) - signed s t\<bar> = \<bar>roundMag t - t\<bar>"
    by (cases s) (simp_all add: signed_def abs_minus_commute)
  then show "\<bar>dvalue (round64 s t) - signed s t\<bar> \<le> t * roundoff + eta"
    using roundMag_abs_error [OF assms(1)] by (simp add: r)
qed

lemma dmul_value:
  assumes "finiteNumber a" "finiteNumber b" "\<bar>dvalue a * dvalue b\<bar> \<le> pow2 1023"
  shows "finiteNumber (dmul a b)"
    and "\<bar>dvalue (dmul a b) - dvalue a * dvalue b\<bar> \<le> \<bar>dvalue a * dvalue b\<bar> * roundoff + eta"
proof -
  from assms(1) obtain s m where a: "a = Num s m" "0 \<le> m" by (rule finiteNumber_cases)
  from assms(2) obtain t n where b: "b = Num t n" "0 \<le> n" by (rule finiteNumber_cases)
  have v: "dvalue a * dvalue b = signed (s \<noteq> t) (m * n)"
    unfolding a b dvalue.simps by (rule signed_mult [symmetric])
  have p: "0 \<le> m * n" using a b by simp
  have ab: "\<bar>dvalue a * dvalue b\<bar> = m * n"
    unfolding v using p by (rule abs_signed)
  have le: "m * n \<le> pow2 1023" using assms(3) by (simp only: ab)
  have d: "dmul a b = round64 (s \<noteq> t) (m * n)" by (simp add: a b)
  show "finiteNumber (dmul a b)"
    unfolding d using p le by (rule round64_value)
  show "\<bar>dvalue (dmul a b) - dvalue a * dvalue b\<bar> \<le> \<bar>dvalue a * dvalue b\<bar> * roundoff + eta"
    unfolding d v ab [unfolded v] using p le by (rule round64_value)
qed

lemma ddiv_value:
  assumes "finiteNumber a" "finiteNumber b" "dvalue b \<noteq> 0" "\<bar>dvalue a / dvalue b\<bar> \<le> pow2 1023"
  shows "finiteNumber (ddiv a b)"
    and "\<bar>dvalue (ddiv a b) - dvalue a / dvalue b\<bar> \<le> \<bar>dvalue a / dvalue b\<bar> * roundoff + eta"
proof -
  from assms(1) obtain s m where a: "a = Num s m" "0 \<le> m" by (rule finiteNumber_cases)
  from assms(2) obtain t n where b: "b = Num t n" "0 \<le> n" by (rule finiteNumber_cases)
  have n: "n \<noteq> 0" using assms(3) by (cases t) (auto simp add: b signed_def)
  have v: "dvalue a / dvalue b = signed (s \<noteq> t) (m / n)"
    unfolding a b dvalue.simps by (rule signed_div [symmetric])
  have p: "0 \<le> m / n" using a b by simp
  have ab: "\<bar>dvalue a / dvalue b\<bar> = m / n"
    unfolding v using p by (rule abs_signed)
  have le: "m / n \<le> pow2 1023" using assms(4) by (simp only: ab)
  have d: "ddiv a b = round64 (s \<noteq> t) (m / n)" using n by (simp add: a b)
  show "finiteNumber (ddiv a b)"
    unfolding d using p le by (rule round64_value)
  show "\<bar>dvalue (ddiv a b) - dvalue a / dvalue b\<bar> \<le> \<bar>dvalue a / dvalue b\<bar> * roundoff + eta"
    unfolding d v ab [unfolded v] using p le by (rule round64_value)
qed

lemma dadd_value:
  assumes "finiteNumber a" "finiteNumber b" "\<bar>dvalue a + dvalue b\<bar> \<le> pow2 1023"
  shows "finiteNumber (dadd a b)"
    and "\<bar>dvalue (dadd a b) - (dvalue a + dvalue b)\<bar> \<le> \<bar>dvalue a + dvalue b\<bar> * roundoff + eta"
proof -
  from assms(1) obtain s m where a: "a = Num s m" "0 \<le> m" by (rule finiteNumber_cases)
  from assms(2) obtain t n where b: "b = Num t n" "0 \<le> n" by (rule finiteNumber_cases)
  let ?r = "signed s m + signed t n"
  have v: "dvalue a + dvalue b = ?r" by (simp add: a b)
  have e: "0 \<le> eta" using eta_small(1) by simp
  show "finiteNumber (dadd a b)"
  proof (cases "?r = 0")
    case True
    then show ?thesis by (simp add: a b)
  next
    case False
    have "finiteNumber (round64 (?r < 0) \<bar>?r\<bar>)"
      using assms(3) unfolding v by (intro round64_value) simp_all
    then show ?thesis using False by (simp add: a b Let_def)
  qed
  show "\<bar>dvalue (dadd a b) - (dvalue a + dvalue b)\<bar> \<le> \<bar>dvalue a + dvalue b\<bar> * roundoff + eta"
  proof (cases "?r = 0")
    case True
    then show ?thesis using e by (simp add: a b signed_def)
  next
    case False
    have "\<bar>dvalue (round64 (?r < 0) \<bar>?r\<bar>) - signed (?r < 0) \<bar>?r\<bar>\<bar> \<le> \<bar>?r\<bar> * roundoff + eta"
      using assms(3) unfolding v by (intro round64_value) simp_all
    then have "\<bar>dvalue (round64 (?r < 0) \<bar>?r\<bar>) - ?r\<bar> \<le> \<bar>?r\<bar> * roundoff + eta"
      by (simp only: signed_abs)
    then show ?thesis using False by (simp add: a b Let_def)
  qed
qed

lemma dneg_value: "finiteNumber a \<Longrightarrow> finiteNumber (dneg a)" "dvalue (dneg a) = - dvalue a"
  by (cases a; simp add: signed_def)+

lemma dsub_value:
  assumes "finiteNumber a" "finiteNumber b" "\<bar>dvalue a - dvalue b\<bar> \<le> pow2 1023"
  shows "finiteNumber (dsub a b)"
    and "\<bar>dvalue (dsub a b) - (dvalue a - dvalue b)\<bar> \<le> \<bar>dvalue a - dvalue b\<bar> * roundoff + eta"
proof -
  have n: "finiteNumber (dneg b)" using assms(2) by (rule dneg_value)
  have le: "\<bar>dvalue a + dvalue (dneg b)\<bar> \<le> pow2 1023"
    using assms(3) by (simp add: dneg_value)
  show "finiteNumber (dsub a b)"
    unfolding dsub_def using assms(1) n le by (rule dadd_value)
  show "\<bar>dvalue (dsub a b) - (dvalue a - dvalue b)\<bar> \<le> \<bar>dvalue a - dvalue b\<bar> * roundoff + eta"
    using dadd_value(2) [OF assms(1) n le] by (simp add: dsub_def dneg_value)
qed

lemma dsqrt_value:
  assumes "finiteNumber a" "0 \<le> dvalue a" "sqrt (dvalue a) \<le> pow2 1023"
  shows "finiteNumber (dsqrt a)"
    and "\<bar>dvalue (dsqrt a) - sqrt (dvalue a)\<bar> \<le> sqrt (dvalue a) * roundoff + eta"
proof -
  from assms(1) obtain s m where a: "a = Num s m" "0 \<le> m" by (rule finiteNumber_cases)
  have e: "0 \<le> eta" using eta_small(1) by simp
  show "finiteNumber (dsqrt a)"
  proof (cases "m = 0")
    case True
    then show ?thesis by (simp add: a)
  next
    case False
    then have s: "\<not> s" using assms(2) a by (auto simp add: signed_def)
    then have d: "dsqrt a = round64 False (sqrt m)" using False by (simp add: a)
    have "sqrt m \<le> pow2 1023" using assms(3) s by (simp add: a signed_def)
    then show ?thesis unfolding d using a(2) by (intro round64_value) simp_all
  qed
  show "\<bar>dvalue (dsqrt a) - sqrt (dvalue a)\<bar> \<le> sqrt (dvalue a) * roundoff + eta"
  proof (cases "m = 0")
    case True
    then show ?thesis using e by (simp add: a signed_def)
  next
    case False
    then have s: "\<not> s" using assms(2) a by (auto simp add: signed_def)
    then have d: "dsqrt a = round64 False (sqrt m)" using False by (simp add: a)
    have v: "dvalue a = m" using s by (simp add: a signed_def)
    have le: "sqrt m \<le> pow2 1023" using assms(3) by (simp only: v)
    have "\<bar>dvalue (round64 False (sqrt m)) - signed False (sqrt m)\<bar> \<le> sqrt m * roundoff + eta"
      using a(2) le by (intro round64_value) simp_all
    then show ?thesis by (simp add: d v signed_def)
  qed
qed

lemma pow2_add: "pow2 a * pow2 b = pow2 (a + b)"
  by (simp only: pow2_def powr_add)

lemma pow2_mono: "a \<le> b \<Longrightarrow> pow2 a \<le> pow2 b"
  by (simp only: pow2_def powr_mono)

lemma pow2_pos: "0 < pow2 a"
  by (simp add: pow2_def)

lemma pow2_nat: "pow2 (real n) = 2 ^ n"
  by (simp add: pow2_def powr_realpow)

lemma pow2_neg_nat: "pow2 (- real n) = 1 / 2 ^ n"
  by (simp add: pow2_def powr_minus powr_realpow field_simps)

lemma eta_pow2: "eta = pow2 (- 1020) / 2 ^ 55"
proof -
  have "eta = pow2 (- 1020 + - real 55)" by (simp add: eta_def pow2_def)
  also have "\<dots> = pow2 (- 1020) * pow2 (- real 55)" by (simp only: pow2_add)
  also have "\<dots> = pow2 (- 1020) / 2 ^ 55" by (simp only: pow2_neg_nat) simp
  finally show ?thesis .
qed

lemma pws:
  "(2::real) ^ 45 = 35184372088832" "(2::real) ^ 46 = 70368744177664" "(2::real) ^ 47 = 140737488355328"
  "(2::real) ^ 48 = 281474976710656" "(2::real) ^ 49 = 562949953421312"
  "(2::real) ^ 50 = 1125899906842624" "(2::real) ^ 51 = 2251799813685248"
  "(2::real) ^ 52 = 4503599627370496" "(2::real) ^ 53 = 9007199254740992"
  "(2::real) ^ 55 = 36028797018963968"
  by simp_all

lemma sq_close:
  fixes o' w d :: real
  assumes "0 \<le> w" "w \<le> 2" "\<bar>o' - w\<bar> \<le> d" "d \<le> 1"
  shows "\<bar>o' * o' - w * w\<bar> \<le> 5 * d"
proof -
  have d: "0 \<le> d" using assms(3) by linarith
  have "o' * o' - w * w = (o' - w) * (o' + w)" by (simp add: algebra_simps)
  then have "\<bar>o' * o' - w * w\<bar> = \<bar>o' - w\<bar> * \<bar>o' + w\<bar>" by (simp add: abs_mult)
  also have "\<dots> \<le> d * 5"
    using assms d by (intro mult_mono) (simp_all add: abs_le_iff)
  finally show ?thesis by simp
qed

lemma sqrt_close_one:
  assumes "0 \<le> q"
  shows "\<bar>sqrt q - 1\<bar> \<le> \<bar>q - 1\<bar>"
proof -
  let ?n = "sqrt q"
  have n: "0 \<le> ?n" using assms by simp
  have q: "q = ?n * ?n" using assms by simp
  have "\<bar>?n - 1\<bar> * 1 \<le> \<bar>?n - 1\<bar> * \<bar>?n + 1\<bar>"
    using n by (intro mult_left_mono) simp_all
  also have "\<dots> = \<bar>?n * ?n - 1\<bar>"
    by (simp add: abs_mult [symmetric] algebra_simps)
  finally show ?thesis using q by simp
qed

lemma dadd_nonneg_finite:
  assumes "0 \<le> a" "0 \<le> b" "a + b \<le> pow2 1023"
  shows "dadd (Num False a) (Num False b) = Num False (roundMag (a + b))"
proof (cases "a + b = 0")
  case True
  then show ?thesis by (simp add: signed_def roundMag_0)
next
  case False
  then have p: "0 < a + b" using assms(1,2) by linarith
  have "round64 False (a + b) = Num False (roundMag (a + b))"
    using assms by (intro round64_finite) simp_all
  then show ?thesis using p by (simp add: signed_def Let_def)
qed

lemma normalize_magnitudes:
  assumes nn: "0 \<le> mx" "0 \<le> my" "0 \<le> mz"
    and lo: "pow2 (- 510) \<le> max mx (max my mz)"
    and hi: "max mx (max my mz) \<le> pow2 510"
  obtains ox oy oz where
    "normalizeVector_double \<lparr> x = Num sx mx, y = Num sy my, z = Num sz mz \<rparr>
     = \<lparr> x = Num sx ox, y = Num sy oy, z = Num sz oz \<rparr>"
    and "\<bar>sqrt (ox * ox + oy * oy + oz * oz) - 1\<bar> \<le> 1 / 10 ^ 9"
proof -
  define M where "M = max mx (max my mz)"
  define px where "px = mx * mx"
  define py where "py = my * my"
  define pz where "pz = mz * mz"
  define MM where "MM = M * M"
  define S where "S = px + py + pz"
  define aX where "aX = roundMag px"
  define aY where "aY = roundMag py"
  define aZ where "aZ = roundMag pz"
  define s1 where "s1 = roundMag (aX + aY)"
  define s where "s = roundMag (s1 + aZ)"
  define L where "L = roundMag (sqrt s)"
  define r0 where "r0 = sqrt S"
  define P where "P = pow2 1020"
  define Q where "Q = pow2 (- 1020)"
  have M0: "0 \<le> M" "mx \<le> M" "my \<le> M" "mz \<le> M"
    using nn by (simp_all add: M_def)
  have Mlo: "pow2 (- 510) \<le> M" and Mhi: "M \<le> pow2 510"
    using lo hi by (simp_all only: M_def)
  have sq: "px \<le> MM" "py \<le> MM" "pz \<le> MM"
    unfolding px_def py_def pz_def MM_def using M0 nn by (simp_all add: mult_mono)
  have sq0: "0 \<le> px" "0 \<le> py" "0 \<le> pz"
    by (simp_all add: px_def py_def pz_def)
  have "M = mx \<or> M = my \<or> M = mz" by (auto simp add: M_def max_def)
  then have "MM = px \<or> MM = py \<or> MM = pz"
    by (auto simp add: MM_def px_def py_def pz_def)
  then have MS: "MM \<le> S"
    using sq0 by (auto simp add: S_def)
  have "M * M \<le> pow2 510 * pow2 510"
    using M0(1) Mhi by (intro mult_mono) simp_all
  then have MP: "MM \<le> P" by (simp add: pow2_add P_def MM_def)
  have "pow2 (- 510) * pow2 (- 510) \<le> M * M"
    using Mlo pow2_pos [of "- 510"] by (intro mult_mono) simp_all
  then have QM: "Q \<le> MM" by (simp add: pow2_add Q_def MM_def)
  have Q0: "0 < Q" unfolding Q_def by (rule pow2_pos)
  have SQ: "Q \<le> S" using QM MS by linarith
  have S0: "0 < S" using SQ Q0 by linarith
  have SP: "S \<le> 3 * P" using sq MP by (simp add: S_def)
  have "8 * P = pow2 3 * pow2 1020"
    using pow2_nat [of 3] by (simp add: P_def)
  also have "\<dots> = pow2 1023" by (simp add: pow2_add)
  finally have P8: "8 * P = pow2 1023" .
  have "(1::real) = pow2 0" by (simp add: pow2_def)
  also have "\<dots> \<le> pow2 1020" by (rule pow2_mono) simp
  finally have P1: "1 \<le> P" by (simp only: P_def)
  have eQ: "eta = Q / 2 ^ 55" unfolding Q_def by (rule eta_pow2)
  have eS: "eta \<le> S / 2 ^ 55" unfolding eQ using SQ by (simp add: divide_right_mono)
  have R: "\<bar>roundMag t - t\<bar> \<le> t / 2 ^ 53 + S / 2 ^ 55" if "0 \<le> t" for t
    using roundMag_abs_error [OF that] eS by (simp add: roundoff_eq)
  have a0: "0 \<le> aX" "0 \<le> aY" "0 \<le> aZ"
    unfolding aX_def aY_def aZ_def using sq0 by (simp_all add: roundMag_ge0)
  have ax: "\<bar>aX - px\<bar> \<le> px / 2 ^ 53 + S / 2 ^ 55"
    unfolding aX_def using sq0(1) by (rule R)
  have ay: "\<bar>aY - py\<bar> \<le> py / 2 ^ 53 + S / 2 ^ 55"
    unfolding aY_def using sq0(2) by (rule R)
  have az: "\<bar>aZ - pz\<bar> \<le> pz / 2 ^ 53 + S / 2 ^ 55"
    unfolding aZ_def using sq0(3) by (rule R)
  have sum: "\<bar>aX + aY + aZ - S\<bar> \<le> S / 2 ^ 52"
    using ax ay az S0 S_def unfolding pws by argo
  have A: "0 \<le> aX + aY" "aX + aY \<le> 2 * S"
    using a0 sum S0 unfolding pws by argo+
  have s1e: "\<bar>s1 - (aX + aY)\<bar> \<le> S / 2 ^ 51"
    using R [OF A(1)] A(2) S0 unfolding s1_def pws by argo
  have s10: "0 \<le> s1" unfolding s1_def using A(1) by (rule roundMag_ge0)
  have T3: "\<bar>s1 + aZ - S\<bar> \<le> S / 2 ^ 50"
    using s1e sum S0 unfolding pws by argo
  have T: "0 \<le> s1 + aZ" "s1 + aZ \<le> 2 * S"
    using s10 a0 T3 S0 unfolding pws by argo+
  have se: "\<bar>s - S\<bar> \<le> S / 2 ^ 49"
    using R [OF T(1)] T(2) T3 S0 unfolding s_def pws by argo
  have spos: "0 < s" using se S0 unfolding pws by argo
  have r00: "0 < r0" unfolding r0_def using S0 by simp
  have r0S: "r0 * r0 = S" unfolding r0_def using S0 by simp
  have lower: "r0 * (1 - 1 / 2 ^ 49) \<le> sqrt s"
  proof (rule real_le_rsqrt)
    have "(r0 * (1 - 1 / 2 ^ 49))\<^sup>2 = S * ((1 - 1 / 2 ^ 49) * (1 - 1 / 2 ^ 49))"
      by (simp add: power2_eq_square r0S [symmetric] algebra_simps)
    also have "\<dots> \<le> S * (1 - 1 / 2 ^ 49)"
      using S0 by (intro mult_left_mono) simp_all
    also have "\<dots> \<le> s" using se unfolding pws by argo
    finally show "(r0 * (1 - 1 / 2 ^ 49))\<^sup>2 \<le> s" .
  qed
  have upper: "sqrt s \<le> r0 * (1 + 1 / 2 ^ 49)"
  proof (rule real_le_lsqrt)
    show "0 \<le> r0 * (1 + 1 / 2 ^ 49)" using r00 by simp
    have "s \<le> S * (1 + 1 / 2 ^ 49)" using se unfolding pws by argo
    also have "\<dots> \<le> S * ((1 + 1 / 2 ^ 49) * (1 + 1 / 2 ^ 49))"
      using S0 by (intro mult_left_mono) simp_all
    also have "\<dots> = (r0 * (1 + 1 / 2 ^ 49))\<^sup>2"
      by (simp add: power2_eq_square r0S [symmetric] algebra_simps)
    finally show "s \<le> (r0 * (1 + 1 / 2 ^ 49))\<^sup>2" .
  qed
  have "pow2 (- 510) \<le> r0"
    unfolding r0_def
  proof (rule real_le_rsqrt)
    have "(pow2 (- 510))\<^sup>2 = Q" by (simp add: power2_eq_square pow2_add Q_def)
    then show "(pow2 (- 510))\<^sup>2 \<le> S" using SQ by simp
  qed
  moreover have "Q \<le> pow2 (- 510)" unfolding Q_def by (rule pow2_mono) simp
  ultimately have "Q \<le> r0" by linarith
  then have er: "eta \<le> r0 / 2 ^ 55" unfolding eQ by (simp add: divide_right_mono)
  have rs0: "0 \<le> sqrt s" using spos by simp
  have Le: "\<bar>L - sqrt s\<bar> \<le> sqrt s / 2 ^ 53 + r0 / 2 ^ 55"
    using roundMag_abs_error [OF rs0] er unfolding L_def by (simp add: roundoff_eq)
  have Lb: "r0 * (1 - 1 / 2 ^ 48) \<le> L" "L \<le> r0 * (1 + 1 / 2 ^ 48)"
    using Le lower upper r00 unfolding pws by argo+
  have Lhalf: "r0 / 2 \<le> L" using Lb(1) r00 by (simp add: algebra_simps) 
  have Lpos: "0 < L" using Lhalf r00 by linarith
  define wx where "wx = mx / L"
  define wy where "wy = my / L"
  define wz where "wz = mz / L"
  define ox where "ox = roundMag wx"
  define oy where "oy = roundMag wy"
  define oz where "oz = roundMag wz"
  have mr: "mx \<le> r0" "my \<le> r0" "mz \<le> r0"
    unfolding r0_def using sq0 S_def
    by (auto intro!: real_le_rsqrt simp add: power2_eq_square px_def py_def pz_def)
  have w0: "0 \<le> wx" "0 \<le> wy" "0 \<le> wz"
    unfolding wx_def wy_def wz_def using nn Lpos by simp_all
  have w2: "wx \<le> 2" "wy \<le> 2" "wz \<le> 2"
    unfolding wx_def wy_def wz_def using mr Lhalf Lpos by (simp_all add: pos_divide_le_eq)
  have e53: "eta \<le> 1 / 2 ^ 53"
    using eta_small(2) by (rule order_trans) simp
  have E: "\<bar>roundMag t - t\<bar> \<le> 1 / 2 ^ 51" if "0 \<le> t" "t \<le> 2" for t
  proof -
    have "t * roundoff \<le> 2 * roundoff"
      using that roundoff_bounds by (intro mult_right_mono) simp_all
    then show ?thesis
      using roundMag_abs_error [OF that(1)] e53 unfolding roundoff_eq pws by argo
  qed
  have o0: "0 \<le> ox" "0 \<le> oy" "0 \<le> oz"
    unfolding ox_def oy_def oz_def using w0 by (simp_all add: roundMag_ge0)
  have oe: "\<bar>ox - wx\<bar> \<le> 1 / 2 ^ 51" "\<bar>oy - wy\<bar> \<le> 1 / 2 ^ 51" "\<bar>oz - wz\<bar> \<le> 1 / 2 ^ 51"
    unfolding ox_def oy_def oz_def using w0 w2 by (simp_all only: E)
  have d1: "(1::real) / 2 ^ 51 \<le> 1" by simp
  have oq: "\<bar>ox * ox - wx * wx\<bar> \<le> 5 * (1 / 2 ^ 51)"
    "\<bar>oy * oy - wy * wy\<bar> \<le> 5 * (1 / 2 ^ 51)"
    "\<bar>oz * oz - wz * wz\<bar> \<le> 5 * (1 / 2 ^ 51)"
    using w0 w2 oe d1 by (simp_all only: sq_close)
  have LL0: "0 < L * L" using Lpos by simp
  have sumw: "wx * wx + wy * wy + wz * wz = S / (L * L)"
    by (simp add: wx_def wy_def wz_def S_def px_def py_def pz_def add_divide_distrib)
  have LLlo: "S * ((1 - 1 / 2 ^ 48) * (1 - 1 / 2 ^ 48)) \<le> L * L"
  proof -
    have "(r0 * (1 - 1 / 2 ^ 48)) * (r0 * (1 - 1 / 2 ^ 48)) \<le> L * L"
      using Lb(1) r00 by (intro mult_mono) simp_all
    then show ?thesis by (simp add: r0S [symmetric] algebra_simps)
  qed
  have LLhi: "L * L \<le> S * ((1 + 1 / 2 ^ 48) * (1 + 1 / 2 ^ 48))"
  proof -
    have "L * L \<le> (r0 * (1 + 1 / 2 ^ 48)) * (r0 * (1 + 1 / 2 ^ 48))"
      using Lb(2) Lpos by (intro mult_mono) simp_all
    then show ?thesis by (simp add: r0S [symmetric] algebra_simps)
  qed
  have Wup: "S / (L * L) \<le> 1 + 1 / 2 ^ 46"
  proof -
    have "(1::real) \<le> (1 + 1 / 2 ^ 46) * ((1 - 1 / 2 ^ 48) * (1 - 1 / 2 ^ 48))" by simp
    then have "S * 1 \<le> S * ((1 + 1 / 2 ^ 46) * ((1 - 1 / 2 ^ 48) * (1 - 1 / 2 ^ 48)))"
      using S0 by (intro mult_left_mono) simp_all
    also have "\<dots> = (1 + 1 / 2 ^ 46) * (S * ((1 - 1 / 2 ^ 48) * (1 - 1 / 2 ^ 48)))"
      by (simp only: mult.left_commute)
    also have "\<dots> \<le> (1 + 1 / 2 ^ 46) * (L * L)"
      using LLlo by (intro mult_left_mono) simp_all
    finally show ?thesis using LL0 by (simp add: pos_divide_le_eq)
  qed
  have Wlo: "1 - 1 / 2 ^ 46 \<le> S / (L * L)"
  proof -
    have "(1 - 1 / 2 ^ 46) * (L * L) \<le> (1 - 1 / 2 ^ 46) * (S * ((1 + 1 / 2 ^ 48) * (1 + 1 / 2 ^ 48)))"
      using LLhi by (intro mult_left_mono) simp_all
    also have "\<dots> = S * ((1 - 1 / 2 ^ 46) * ((1 + 1 / 2 ^ 48) * (1 + 1 / 2 ^ 48)))"
      by (simp only: mult.left_commute)
    also have "\<dots> \<le> S * 1"
      using S0 by (intro mult_left_mono) simp_all
    finally show ?thesis using LL0 by (simp add: pos_le_divide_eq)
  qed
  have N2: "\<bar>ox * ox + oy * oy + oz * oz - 1\<bar> \<le> 1 / 2 ^ 45"
    using oq Wup Wlo sumw unfolding pws by argo
  have N0: "0 \<le> ox * ox + oy * oy + oz * oz" by simp
  have "\<bar>sqrt (ox * ox + oy * oy + oz * oz) - 1\<bar> \<le> \<bar>ox * ox + oy * oy + oz * oz - 1\<bar>"
    using N0 by (rule sqrt_close_one)
  also have "\<dots> \<le> 1 / 2 ^ 45" by (rule N2)
  also have "\<dots> \<le> 1 / 10 ^ 9" by simp
  finally have unit: "\<bar>sqrt (ox * ox + oy * oy + oz * oz) - 1\<bar> \<le> 1 / 10 ^ 9" .
  have fin: "t \<le> pow2 1023" if "t \<le> 8 * P" for t
    using that by (simp only: P8)
  have P0: "0 < P" unfolding P_def by (rule pow2_pos)
  have mulx: "dmul (Num sx mx) (Num sx mx) = Num False aX"
    using round64_finite [OF sq0(1) fin, of False] sq(1) MP P0 by (simp add: aX_def px_def)
  have muly: "dmul (Num sy my) (Num sy my) = Num False aY"
    using round64_finite [OF sq0(2) fin, of False] sq(2) MP P0 by (simp add: aY_def py_def)
  have mulz: "dmul (Num sz mz) (Num sz mz) = Num False aZ"
    using round64_finite [OF sq0(3) fin, of False] sq(3) MP P0 by (simp add: aZ_def pz_def)
  have add1: "dadd (Num False aX) (Num False aY) = Num False s1"
    unfolding s1_def using a0(1,2)
  proof (rule dadd_nonneg_finite)
    show "aX + aY \<le> pow2 1023" using A(2) SP P0 by (intro fin) linarith
  qed
  have add2: "dadd (Num False s1) (Num False aZ) = Num False s"
    unfolding s_def using s10 a0(3)
  proof (rule dadd_nonneg_finite)
    show "s1 + aZ \<le> pow2 1023" using T(2) SP P0 by (intro fin) linarith
  qed
  have "sqrt s \<le> s + 1"
  proof (rule real_le_lsqrt)
    show "0 \<le> s + 1" using spos by simp
    have "s \<le> s * s + 2 * s + 1" using spos by simp
    then show "s \<le> (s + 1)\<^sup>2" by (simp add: power2_eq_square algebra_simps)
  qed
  moreover have "s \<le> 2 * S" using se S0 unfolding pws by argo
  ultimately have "sqrt s \<le> 8 * P" using SP P1 by linarith
  then have "sqrt s \<le> pow2 1023" by (rule fin)
  then have "round64 False (sqrt s) = Num False L"
    unfolding L_def using rs0 by (intro round64_finite)
  then have rt: "dsqrt (Num False s) = Num False L"
    using spos by simp
  have w1023: "t \<le> pow2 1023" if "t \<le> 2" for t
    using that P1 P0 by (intro fin) linarith
  have divx: "ddiv (Num sx mx) (Num False L) = Num sx ox"
    using round64_finite [OF w0(1) w1023 [OF w2(1)], of sx] Lpos by (simp add: ox_def wx_def)
  have divy: "ddiv (Num sy my) (Num False L) = Num sy oy"
    using round64_finite [OF w0(2) w1023 [OF w2(2)], of sy] Lpos by (simp add: oy_def wy_def)
  have divz: "ddiv (Num sz mz) (Num False L) = Num sz oz"
    using round64_finite [OF w0(3) w1023 [OF w2(3)], of sz] Lpos by (simp add: oz_def wz_def)
  have "normalizeVector_double \<lparr> x = Num sx mx, y = Num sy my, z = Num sz mz \<rparr>
        = \<lparr> x = Num sx ox, y = Num sy oy, z = Num sz oz \<rparr>"
    using Lpos
    by (simp add: normalizeVector_double_def Let_def mulx muly mulz add1 add2 rt divx divy divz
        del: dmul.simps dadd.simps dsqrt.simps ddiv.simps)
  then show thesis using unit by (rule that)
qed

section \<open>The distance of two centers on doubles\<close>

text \<open>
  Rounding is symmetric under negation, so the distance computed from \<open>a\<close> to \<open>b\<close>
  is the same double as the one computed from \<open>b\<close> to \<open>a\<close>.
\<close>

lemma dmul_self_sign: "dmul (round64 s k) (round64 s k) = dmul (round64 t k) (round64 t k)"
  by (simp add: round64_def Let_def)

lemma dsub_square: "dmul (dsub a b) (dsub a b) = dmul (dsub b a) (dsub b a)"
proof (cases a; cases b)
  fix s m t n
  assume ab: "a = Num s m" "b = Num t n"
  let ?r = "signed s m + signed (\<not> t) n"
  let ?r' = "signed t n + signed (\<not> s) m"
  have r': "?r' = - ?r" by (simp add: signed_def)
  show ?thesis
  proof (cases "?r = 0")
    case True
    then show ?thesis using r' by (simp add: ab dsub_def Let_def)
  next
    case False
    then have "?r' \<noteq> 0" "\<bar>?r'\<bar> = \<bar>?r\<bar>" using r' by simp_all
    then show ?thesis
      using False dmul_self_sign [of "?r < 0" "\<bar>?r\<bar>" "?r' < 0"]
      by (simp add: ab dsub_def Let_def)
  qed
qed (simp_all add: dsub_def)

lemma centerDistance_double_commute: "centerDistance_double a b = centerDistance_double b a"
  unfolding centerDistance_double_def Let_def
  by (simp only: dsub_square [of "x a" "x b"] dsub_square [of "y a" "y b"] dsub_square [of "z a" "z b"])

section \<open>C9: \<open>normalizeVector\<close> on doubles\<close>

lemma normalizeVector_double_zero:
  assumes "isZero (x v)" "isZero (y v)" "isZero (z v)"
  shows "normalizeVector_double v = \<lparr> x = Num False 0, y = Num False 0, z = Num False 0 \<rparr>"
proof -
  obtain sx sy sz where v: "x v = Num sx 0" "y v = Num sy 0" "z v = Num sz 0"
    using assms by (cases "x v"; cases "y v"; cases "z v") simp_all
  have m: "dmul (Num s 0) (Num s 0) = Num False 0" for s
    by (simp add: round64_zero)
  have a: "dadd (Num False 0) (Num False 0) = Num False 0"
    by (simp add: signed_def)
  have "dsqrt (dadd (dadd (dmul (x v) (x v)) (dmul (y v) (y v))) (dmul (z v) (z v))) = Num False 0"
    by (simp only: v m a) simp
  then show ?thesis
    by (simp add: normalizeVector_double_def Let_def)
qed

lemma normalizeVector_double_tiny:
  "normalizeVector_double \<lparr> x = Num False (2 powr (- 600)), y = Num False 0, z = Num False 0 \<rparr>
   = \<lparr> x = Num False 0, y = Num False 0, z = Num False 0 \<rparr>"
proof -
  have "(2::real) powr (- 600) * 2 powr (- 600) = 2 powr (- 600 + - 600)"
    by (rule powr_add [symmetric])
  then have sq: "(2::real) powr (- 600) * 2 powr (- 600) = 2 powr (- 1200)"
    by simp
  have "(0::real) < 2 powr 1024" by simp
  then have "round64 False (2 powr (- 1200)) = Num False 0"
    by (simp add: round64_def roundMag_tiny del: powr_numeral)
  then have mx: "dmul (Num False (2 powr (- 600))) (Num False (2 powr (- 600))) = Num False 0"
    by (simp add: sq)
  have m0: "dmul (Num False 0) (Num False 0) = Num False 0"
    by (simp add: round64_zero)
  have a: "dadd (Num False 0) (Num False 0) = Num False 0"
    by (simp add: signed_def)
  have "dsqrt (dadd (dadd (dmul (Num False (2 powr (- 600))) (Num False (2 powr (- 600))))
            (dmul (Num False 0) (Num False 0))) (dmul (Num False 0) (Num False 0))) = Num False 0"
    by (simp only: mx m0 a) simp
  then show ?thesis
    by (simp add: normalizeVector_double_def Let_def del: dmul.simps dadd.simps dsqrt.simps)
qed

lemma isDouble_tiny: "isDouble (Num False (2 powr (- 600)))"
proof -
  have "(2::real) powr (- 600) < 2 powr 1024"
    by (rule powr_less_mono) simp_all
  then show ?thesis
    by (simp add: roundMag_exact del: powr_numeral)
qed

text \<open>
  C9. The claim is that \<open>normalizeVector\<close> returns the zero vector for the zero vector
  and a vector of unit length, within tolerance, for every other vector. The first half
  holds. The second fails where the squares of the coordinates underflow: the vector
  \<open>(2 powr (- 600), 0, 0)\<close> is a vector of doubles and is not zero, the square of
  its first coordinate rounds to zero, so its computed length is zero and the guard
  \<open>length === 0\<close> returns the zero vector.
\<close>

theorem normalizeVector_double_underflow:
  "isDouble (Num False (2 powr (- 600)))
   \<and> \<not> isZero (Num False (2 powr (- 600)))
   \<and> normalizeVector_double
        \<lparr> x = Num False (2 powr (- 600)), y = Num False 0, z = Num False 0 \<rparr>
       = \<lparr> x = Num False 0, y = Num False 0, z = Num False 0 \<rparr>
   \<and> \<not> unitLength (normalizeVector_double
        \<lparr> x = Num False (2 powr (- 600)), y = Num False 0, z = Num False 0 \<rparr>)"
proof -
  have "\<not> unitLength \<lparr> x = Num False 0, y = Num False 0, z = Num False 0 \<rparr>"
    by (simp add: unitLength_def vectorLength_def signed_def)
  then show ?thesis
    by (simp only: normalizeVector_double_tiny isDouble_tiny) simp
qed

text \<open>
  C9, amended. \<open>normalizeVector\<close> returns the zero vector for a vector whose three
  coordinates are zero (of either sign). For a vector of finite doubles whose largest
  coordinate has a magnitude between \<open>2 powr (- 510)\<close> and \<open>2 powr 510\<close>, whatever
  the other two coordinates, it returns a vector of finite doubles whose exact length is
  within \<open>1e-9\<close> of 1.
\<close>

theorem normalizeVector_double_contract:
  "(isZero (x v) \<and> isZero (y v) \<and> isZero (z v)
      \<longrightarrow> normalizeVector_double v = \<lparr> x = Num False 0, y = Num False 0, z = Num False 0 \<rparr>)
   \<and> (finiteNumber (x v) \<and> finiteNumber (y v) \<and> finiteNumber (z v)
        \<and> 2 powr (- 510) \<le> largest v \<and> largest v \<le> 2 powr 510
      \<longrightarrow> unitLength (normalizeVector_double v))"
proof (intro conjI impI)
  assume "isZero (x v) \<and> isZero (y v) \<and> isZero (z v)"
  then show "normalizeVector_double v = \<lparr> x = Num False 0, y = Num False 0, z = Num False 0 \<rparr>"
    by (simp add: normalizeVector_double_zero)
next
  assume a: "finiteNumber (x v) \<and> finiteNumber (y v) \<and> finiteNumber (z v)
        \<and> 2 powr (- 510) \<le> largest v \<and> largest v \<le> 2 powr 510"
  then obtain sx mx sy my sz mz where c: "x v = Num sx mx" "y v = Num sy my" "z v = Num sz mz"
    by (cases "x v"; cases "y v"; cases "z v") simp_all
  have v: "v = \<lparr> x = Num sx mx, y = Num sy my, z = Num sz mz \<rparr>"
    using c by (cases v) simp
  have nn: "0 \<le> mx" "0 \<le> my" "0 \<le> mz"
    using a unfolding c by simp_all
  have l: "largest v = max mx (max my mz)"
    by (simp add: largest_def c)
  have lo: "pow2 (- 510) \<le> max mx (max my mz)" and hi: "max mx (max my mz) \<le> pow2 510"
    using a unfolding l pow2_def by simp_all
  from nn lo hi obtain ox oy oz where
    n: "normalizeVector_double \<lparr> x = Num sx mx, y = Num sy my, z = Num sz mz \<rparr>
        = \<lparr> x = Num sx ox, y = Num sy oy, z = Num sz oz \<rparr>"
    and l: "\<bar>sqrt (ox * ox + oy * oy + oz * oz) - 1\<bar> \<le> 1 / 10 ^ 9"
    by (rule normalize_magnitudes)
  have "signed s m * signed s m = m * m" for s m
    by (simp add: signed_def)
  then have "vectorLength \<lparr> x = Num sx ox, y = Num sy oy, z = Num sz oz \<rparr>
        = sqrt (ox * ox + oy * oy + oz * oz)"
    by (simp add: vectorLength_def)
  then show "unitLength (normalizeVector_double v)"
    using l by (simp add: v n unitLength_def)
qed

theorem normalizeVector_double_contract_witness:
  "isZero (Num True 0) \<and> isZero (Num False 0)
   \<and> normalizeVector_double \<lparr> x = Num True 0, y = Num False 0, z = Num False 0 \<rparr>
       = \<lparr> x = Num False 0, y = Num False 0, z = Num False 0 \<rparr>
   \<and> finiteNumber (Num False 1) \<and> finiteNumber (Num False (2 powr (- 600))) \<and> finiteNumber (Num True 0)
   \<and> largest \<lparr> x = Num False 1, y = Num False (2 powr (- 600)), z = Num True 0 \<rparr> = 1
   \<and> unitLength (normalizeVector_double
         \<lparr> x = Num False 1, y = Num False (2 powr (- 600)), z = Num True 0 \<rparr>)"
proof -
  have lo: "(2::real) powr (- 510) \<le> 2 powr 0" and hi: "(2::real) powr 0 \<le> 2 powr 510"
    and t: "(2::real) powr (- 600) \<le> 2 powr 0"
    by (rule powr_mono, simp, simp)+
  have l: "largest \<lparr> x = Num False 1, y = Num False (2 powr (- 600)), z = Num True 0 \<rparr> = 1"
    using t by (simp add: largest_def del: powr_numeral)
  show ?thesis
    using normalizeVector_double_contract [of "\<lparr> x = Num True 0, y = Num False 0, z = Num False 0 \<rparr>"]
      normalizeVector_double_contract
        [of "\<lparr> x = Num False 1, y = Num False (2 powr (- 600)), z = Num True 0 \<rparr>"]
      lo hi l
    by (simp del: powr_numeral)
qed

end
